theory Spec2Isabelle
  imports Main "HOL-Library.AList"
begin

chapter \<open>The program\<close>

section \<open>JavaScript values used by the reducers\<close>

text \<open>
  A TypeScript \<open>number\<close> is only ever compared with \<open>!==\<close> by the code below, so its
  arithmetic is left out and a number is either a numeric value or \<open>NaN\<close>. The strict
  inequality of JavaScript is true whenever one side is \<open>NaN\<close>, also for
  \<open>NaN !== NaN\<close>; on every other pair of numbers it is ordinary inequality.
\<close>

datatype number = Num int | NaN

definition strict_neq :: "number \<Rightarrow> number \<Rightarrow> bool" where
  "strict_neq a b = (a = NaN \<or> b = NaN \<or> a \<noteq> b)"

section \<open>The task reducer (reducers/tasksReducer.ts, tasks/TaskProvider.tsx)\<close>

text \<open>The interface \<open>Task\<close>; its field \<open>id\<close> is written \<open>id'\<close>.\<close>

record Task =
  id' :: number
  title :: string

text \<open>
  \<open>TaskAction = AddTask | DeleteTask\<close>. The reducer's \<open>switch\<close> has a \<open>default\<close>
  branch for an action whose \<open>type\<close> is neither \<open>"ADD"\<close> nor \<open>"DELETE"\<close>; such an
  action is \<open>OTHER\<close>.
\<close>

datatype TaskAction = ADD Task | DELETE number | OTHER

text \<open>\<open>taskReducer\<close> of reducers/tasksReducer.ts, on the values of the arrays.\<close>

fun taskReducer :: "Task list \<Rightarrow> TaskAction \<Rightarrow> Task list" where
  "taskReducer tasks (ADD task) = task # tasks"
| "taskReducer tasks (DELETE taskId) = filter (\<lambda>task. strict_neq taskId (id' task)) tasks"
| "taskReducer tasks OTHER = tasks"

text \<open>The copy of the reducer in tasks/TaskProvider.tsx: the same three branches.\<close>

fun taskReducer_provider :: "Task list \<Rightarrow> TaskAction \<Rightarrow> Task list" where
  "taskReducer_provider tasks (ADD task) = task # tasks"
| "taskReducer_provider tasks (DELETE taskId) =
     filter (\<lambda>task. strict_neq taskId (id' task)) tasks"
| "taskReducer_provider tasks OTHER = tasks"

text \<open>
  The same reducer with the arrays as objects of a store, so that "a new array" and "the
  input array" can be told apart. A store is the list of all arrays allocated so far, an
  array reference is an index into it, and an array literal (\<open>[action.task, ...tasks]\<close>)
  or \<open>filter\<close> allocates a new array at the end. The \<open>default\<close> branch returns the
  reference it was given.
\<close>

type_synonym array_store = "Task list list"

definition alloc :: "array_store \<Rightarrow> Task list \<Rightarrow> array_store \<times> nat" where
  "alloc h xs = (h @ [xs], length h)"

fun taskReducer_store :: "array_store \<Rightarrow> nat \<Rightarrow> TaskAction \<Rightarrow> array_store \<times> nat" where
  "taskReducer_store h tasks (ADD task) = alloc h (task # (h ! tasks))"
| "taskReducer_store h tasks (DELETE taskId) =
     alloc h (filter (\<lambda>task. strict_neq taskId (id' task)) (h ! tasks))"
| "taskReducer_store h tasks OTHER = (h, tasks)"

section \<open>The login reducer (reducers/logInReducer.ts and the copy in AuthProvider)\<close>

text \<open>
  \<open>LogAction = LogIn | LogOut\<close>; \<open>UNKNOWN\<close> is an action whose \<open>type\<close> is neither, for
  which the code has its last \<open>return ""\<close>.
\<close>

datatype LogAction = LOGIN string | LOGOUT | UNKNOWN

fun AuthReducer :: "string \<Rightarrow> LogAction \<Rightarrow> string" where
  "AuthReducer state (LOGIN user) = user"
| "AuthReducer state LOGOUT = ''''"
| "AuthReducer state UNKNOWN = ''''"

fun AuthReducer_provider :: "string \<Rightarrow> LogAction \<Rightarrow> string" where
  "AuthReducer_provider state (LOGIN user) = user"
| "AuthReducer_provider state LOGOUT = ''''"
| "AuthReducer_provider state UNKNOWN = ''''"

section \<open>The optimistic mutation hook (react-query/hooks/useAddTodo.ts)\<close>

text \<open>
  The interface \<open>Todo\<close> (fields \<open>id\<close> and \<open>title\<close> written \<open>todo_id\<close> and
  \<open>todo_title\<close>).
\<close>

record Todo =
  todo_id :: number
  todo_title :: string
  userId :: number
  completed :: bool

text \<open>
  The hook stores todo objects in arrays and compares them with \<open>===\<close>, which on objects
  is identity. A todo object is therefore its identity together with its fields; no code
  of the hook or of the cache assigns to a field, so an object keeps the fields it was
  created with. Two objects with one identity are one object, with the same fields:
  \<open>a === b\<close> is the equality of the two pairs.
\<close>

type_synonym todo_obj = "nat \<times> Todo"

text \<open>
  A query key is an array of segments: strings, numbers and plain objects
  (\<open>["todos"]\<close>, \<open>["posts", query]\<close>); an object is the list of its fields in order.
\<close>

datatype segment = Str string | Nmb int | Obj "(string \<times> segment) list"

type_synonym cache_key = "segment list"

text \<open>\<open>export const CACHE_KEY_TODOS = ["todos"]\<close> (constants.ts, quoted in the notes).\<close>

definition CACHE_KEY_TODOS :: cache_key where
  "CACHE_KEY_TODOS = [Str ''todos'']"

text \<open>
  The query client the hook reads and writes: the array cached under each key, and the
  number of objects created so far, which is the identity of the next object.
\<close>

record query_client =
  objects :: nat
  queries :: "cache_key \<rightharpoonup> todo_obj list"

text \<open>The todos cached under a key, by value.\<close>

definition contents :: "query_client \<Rightarrow> cache_key \<Rightarrow> Todo list option" where
  "contents qc k = map_option (map snd) (queries qc k)"

text \<open>
  \<open>queryClient.getQueryData\<close> and \<open>queryClient.setQueryData\<close> belong to the query
  library (\<open>@tanstack/react-query\<close>, version 4), which is not part of the sources; they
  are modelled as that library performs them. A read of an absent entry is \<open>undefined\<close>
  (\<open>None\<close>). A write does not store the array it is given as it is: the library shares
  structure with the data cached before (\<open>replaceEqualDeep(prevData, data)\<close>, its
  default). On two arrays \<open>a\<close> (cached) and \<open>b\<close> (written) it builds an array of the
  length of \<open>b\<close>, whose element at an index is

  \<^item> the element of \<open>b\<close> itself where \<open>a\<close> has no element at the index;
  \<^item> the element of \<open>a\<close> where the two elements are one object, or have strictly equal
    (\<open>===\<close>) values in every field;
  \<^item> a new object with the fields of the element of \<open>b\<close> otherwise.

  When nothing is cached under the key, the array written is stored as it is.
\<close>

definition same_fields :: "Todo \<Rightarrow> Todo \<Rightarrow> bool" where
  "same_fields a b \<longleftrightarrow>
     \<not> strict_neq (todo_id a) (todo_id b) \<and> todo_title a = todo_title b
     \<and> \<not> strict_neq (userId a) (userId b) \<and> completed a = completed b"

definition replaceEqualDeep_object :: "nat \<Rightarrow> todo_obj \<Rightarrow> todo_obj \<Rightarrow> nat \<times> todo_obj" where
  "replaceEqualDeep_object n a b =
     (if a = b then (n, a)
      else if same_fields (snd a) (snd b) then (n, a)
      else (Suc n, (n, snd b)))"

fun replaceEqualDeep :: "nat \<Rightarrow> todo_obj list \<Rightarrow> todo_obj list \<Rightarrow> nat \<times> todo_obj list" where
  "replaceEqualDeep n a [] = (n, [])"
| "replaceEqualDeep n [] (y # b) = (n, y # b)"
| "replaceEqualDeep n (x # a) (y # b) =
     (let (n1, z) = replaceEqualDeep_object n x y;
          (n2, zs) = replaceEqualDeep n1 a b
      in (n2, z # zs))"

definition replaceData ::
  "nat \<Rightarrow> todo_obj list option \<Rightarrow> todo_obj list \<Rightarrow> nat \<times> todo_obj list" where
  "replaceData n prevData d =
     (case prevData of None \<Rightarrow> (n, d) | Some a \<Rightarrow> replaceEqualDeep n a d)"

definition getQueryData :: "query_client \<Rightarrow> cache_key \<Rightarrow> todo_obj list option" where
  "getQueryData qc k = queries qc k"

text \<open>
  The updater computes the data to write from the current data. An updater that returns
  \<open>undefined\<close> writes nothing; the hook's only such updater is the one of \<open>onSuccess\<close> on
  an absent entry, which stays absent.
\<close>

definition setQueryData ::
  "query_client \<Rightarrow> cache_key \<Rightarrow> (todo_obj list option \<Rightarrow> todo_obj list option)
     \<Rightarrow> query_client" where
  "setQueryData qc k updater =
     (case updater (queries qc k) of
        None \<Rightarrow> qc
      | Some d \<Rightarrow>
          (let (n, d') = replaceData (objects qc) (queries qc k) d
           in qc\<lparr>objects := n, queries := (queries qc)(k \<mapsto> d')\<rparr>))"

text \<open>\<open>todos || []\<close>: an array is truthy, also the empty one, so only \<open>undefined\<close> gives \<open>[]\<close>.\<close>

definition or_empty :: "'a list option \<Rightarrow> 'a list" where
  "or_empty todos = (case todos of None \<Rightarrow> [] | Some ts \<Rightarrow> ts)"

record AddTodoContext =
  prvsTodos :: "todo_obj list"

text \<open>
  \<open>onMutate\<close>: snapshot, then the optimistic write. The call \<open>onAdd()\<close> between the write
  and the return is the form's callback, which clears the input field and does not touch
  the cache.
\<close>

definition onMutate :: "query_client \<Rightarrow> todo_obj \<Rightarrow> query_client \<times> AddTodoContext" where
  "onMutate qc newTodo =
     (let prvs = or_empty (getQueryData qc CACHE_KEY_TODOS);
          qc' = setQueryData qc CACHE_KEY_TODOS (\<lambda>todos. Some (newTodo # or_empty todos))
      in (qc', \<lparr>prvsTodos = prvs\<rparr>))"

text \<open>\<open>onSuccess\<close>: \<open>todos?.map((todo) => (todo === newTodo ? savedTodo : todo))\<close>.\<close>

definition onSuccess :: "query_client \<Rightarrow> todo_obj \<Rightarrow> todo_obj \<Rightarrow> query_client" where
  "onSuccess qc savedTodo newTodo =
     setQueryData qc CACHE_KEY_TODOS
       (\<lambda>todos. map_option (map (\<lambda>todo. if todo = newTodo then savedTodo else todo)) todos)"

text \<open>\<open>onError\<close>: nothing without a context, else the snapshot is written back.\<close>

definition onError ::
  "query_client \<Rightarrow> string \<Rightarrow> todo_obj \<Rightarrow> AddTodoContext option \<Rightarrow> query_client" where
  "onError qc err newTodo context =
     (case context of None \<Rightarrow> qc
      | Some c \<Rightarrow> setQueryData qc CACHE_KEY_TODOS (\<lambda>_. Some (prvsTodos c)))"

text \<open>
  Modelled from the spec: the order in which the library's \<open>useMutation\<close> runs the
  callbacks is the spec's optimistic update protocol (4.4): \<open>onMutate\<close> and its
  context first, then the remote write (\<open>mutationFn\<close>, whose response is a parameter
  here), then \<open>onSuccess\<close> with the server's todo or \<open>onError\<close> with the error and the
  context; the error is surfaced to the caller.
\<close>

datatype 'a response = Resolved 'a | Rejected string

definition mutate ::
  "query_client \<Rightarrow> todo_obj \<Rightarrow> todo_obj response \<Rightarrow> query_client \<times> string option" where
  "mutate qc newTodo resp =
     (let (qc1, context) = onMutate qc newTodo
      in case resp of
           Resolved savedTodo \<Rightarrow> (onSuccess qc1 savedTodo newTodo, None)
         | Rejected err \<Rightarrow> (onError qc1 err newTodo (Some context), Some err))"

text \<open>A sequence of mutations that all fail, one after the other.\<close>

fun mutate_failing :: "query_client \<Rightarrow> (todo_obj \<times> string) list \<Rightarrow> query_client" where
  "mutate_failing qc [] = qc"
| "mutate_failing qc ((newTodo, err) # ms) =
     mutate_failing (fst (mutate qc newTodo (Rejected err))) ms"

text \<open>
  The todos of the examples: the one the form submits (\<open>id: 0\<close>), the one the server
  answers with (\<open>id: 42\<close>), and two that were fetched before.
\<close>

definition ex_newTodo :: todo_obj where
  "ex_newTodo = (2, \<lparr>todo_id = Num 0, todo_title = ''X'', userId = Num 1, completed = False\<rparr>)"

definition ex_savedTodo :: todo_obj where
  "ex_savedTodo = (3, \<lparr>todo_id = Num 42, todo_title = ''X'', userId = Num 1, completed = False\<rparr>)"

definition ex_todo1 :: todo_obj where
  "ex_todo1 = (0, \<lparr>todo_id = Num 1, todo_title = ''a'', userId = Num 1, completed = True\<rparr>)"

definition ex_todo2 :: todo_obj where
  "ex_todo2 = (1, \<lparr>todo_id = Num 2, todo_title = ''b'', userId = Num 1, completed = False\<rparr>)"

text \<open>
  Query clients of the examples: one with nothing cached, one with the empty list of
  todos, and one with the two fetched todos. The four objects above exist in each.
\<close>

definition ex_client_absent :: query_client where
  "ex_client_absent = \<lparr>objects = 4, queries = Map.empty\<rparr>"

definition ex_client_empty :: query_client where
  "ex_client_empty = \<lparr>objects = 4, queries = [CACHE_KEY_TODOS \<mapsto> []]\<rparr>"

definition ex_client :: query_client where
  "ex_client = \<lparr>objects = 4, queries = [CACHE_KEY_TODOS \<mapsto> [ex_todo1, ex_todo2]]\<rparr>"

section \<open>The counter store (state-management/counter/store.ts)\<close>

text \<open>
  The state of the store created by \<open>create<CounterStore>\<close>. The source's interface has
  \<open>counter\<close> only; \<open>max\<close> (written \<open>max'\<close>) is the property the notes add to it in
  "Preventing Unnecessary Renders", initialised with 5. An action calls \<open>set\<close> with a
  function from the current state to the properties to overwrite; the other properties
  are kept. \<open>reset_max\<close> is the notes' variant of \<open>reset\<close>, which sets \<open>max\<close> to 10.

  The counter is a JavaScript number that starts at 0 and is only incremented and reset,
  so it is an integer, and \<open>store.counter + 1\<close> is the addition of the numbers: it is
  exact as long as the sum is at most \<open>2^53\<close> in magnitude; beyond, the sum is rounded
  to the nearest number, and to the one with the even significand when two are equally
  near. Between \<open>2^53\<close> and \<open>2^54\<close> the numbers are the even integers, and from \<open>2^54\<close> on
  they are at least 4 apart. In particular \<open>2^53 + 1\<close> is \<open>2^53\<close>.
\<close>

record CounterStore =
  counter :: int
  max' :: int




definition reset :: "CounterStore \<Rightarrow> CounterStore" where
  "reset s = s\<lparr>counter := 0\<rparr>"


section \<open>The query options of the hooks (react-query/hooks/useTodos.ts, main.tsx)\<close>

text \<open>
  The options the core reads: \<open>staleTime\<close> is the spec's \<open>staleAfterMs\<close> and \<open>cacheTime\<close>
  its \<open>retentionMs\<close>. \<open>useTodos\<close> sets \<open>staleTime: 100 * 1000\<close> and leaves the cache time
  at the client's default, which the notes give as \<open>300_000\<close>.
\<close>

record options =
  opt_staleAfterMs :: int
  opt_retentionMs :: int

definition useTodos_options :: options where
  "useTodos_options = \<lparr>opt_staleAfterMs = 100 * 1000, opt_retentionMs = 300000\<rparr>"

chapter \<open>The cache core of the specification\<close>

text \<open>
  The hooks above configure a query library that is not part of the sources. The
  definitions of this chapter are the data cache as the specification describes it
  (sections 3 to 6): each is modelled from the spec and follows its words.
\<close>

section \<open>Key codec\<close>

text \<open>
  Modelled from the spec: \<open>isPrefixOf(a, b)\<close>, "all segments of key A are a prefix of
  key B".
\<close>

fun isPrefixOf :: "cache_key \<Rightarrow> cache_key \<Rightarrow> bool" where
  "isPrefixOf [] b = True"
| "isPrefixOf (x # a) [] = False"
| "isPrefixOf (x # a) (y # b) = (x = y \<and> isPrefixOf a b)"

section \<open>Cache entries and the state of the core\<close>

datatype status = Idle | Loading | Success | Error

text \<open>
  Modelled from the spec: the cache entry of section 3. \<open>lastUpdatedAt\<close> is the time of
  the last successful write and is absent before the first one. \<open>invalidated\<close> records
  that the entry was explicitly invalidated, which the staleness rule refers to.
\<close>

record 'd entry =
  key :: cache_key
  data :: "'d option"
  status :: status
  error :: "string option"
  lastUpdatedAt :: "int option"
  staleAfterMs :: int
  retentionMs :: int
  observerCount :: nat
  inFlightRequestId :: "nat option"
  invalidated :: bool

text \<open>
  Modelled from the spec: a subscriber of the observer registry (4.5) is a listener, with
  or without a selector; listeners are numbered.
\<close>

datatype ('d, 'v) subscriber = Plain nat | Selector nat "'d option \<Rightarrow> 'v"

fun listener :: "('d, 'v) subscriber \<Rightarrow> nat" where
  "listener (Plain l) = l"
| "listener (Selector l sel) = l"

text \<open>
  Modelled from the spec: what a caller of \<open>query\<close> receives, \<open>{data, status, error}\<close>.
\<close>

record 'd result =
  r_data :: "'d option"
  r_status :: status
  r_error :: "string option"

text \<open>
  Modelled from the spec: the state of one cache instance. \<open>store\<close> is the cache store,
  the mapping from keys to entries as the list of its pairs; \<open>subscribers\<close> the observer
  registry; \<open>retryCount\<close>, \<open>defaultStaleAfterMs\<close> and \<open>defaultRetentionMs\<close> the
  configured defaults. The rest records what the executors do: \<open>running\<close> holds the
  fetches that are executing, each with its key and request identity; \<open>issued\<close> every
  fetch ever started; \<open>calls\<close> one pair for every network call made (a fetch makes one
  call per attempt); \<open>notifications\<close> every notification sent, with the listener, the key
  and the status notified; \<open>waiting\<close> the callers registered for the result of a request;
  \<open>delivered\<close> the result each caller received.
\<close>

record ('d, 'v) core =
  store :: "(cache_key \<times> 'd entry) list"
  subscribers :: "(cache_key \<times> ('d, 'v) subscriber) list"
  retryCount :: nat
  defaultStaleAfterMs :: int
  defaultRetentionMs :: int
  nextRequestId :: nat
  running :: "(cache_key \<times> nat) list"
  issued :: "(cache_key \<times> nat) list"
  calls :: "(cache_key \<times> nat) list"
  notifications :: "(nat \<times> cache_key \<times> status) list"
  waiting :: "(nat \<times> nat) list"
  delivered :: "(nat \<times> 'd result) list"

text \<open>
  Modelled from the spec: a new cache instance. The default retry count is 3; the
  defaults of the two durations are the ones the notes give for the library (a stale
  time of zero and a cache time of five minutes).
\<close>

definition create :: "('d, 'v) core" where
  "create = \<lparr>store = [], subscribers = [], retryCount = 3, defaultStaleAfterMs = 0,
     defaultRetentionMs = 300000, nextRequestId = 0, running = [], issued = [], calls = [],
     notifications = [], waiting = [], delivered = []\<rparr>"

section \<open>Cache store and observer registry\<close>

text \<open>Modelled from the spec: \<open>get(key) -> CacheEntry | absent\<close>.\<close>

definition get :: "('d, 'v) core \<Rightarrow> cache_key \<Rightarrow> 'd entry option" where
  "get cs k = map_of (store cs) k"

text \<open>
  Modelled from the spec: \<open>findByPrefix(prefix) -> list of keys\<close>, the keys of the
  mapping that the prefix matches, each of them once.
\<close>

definition findByPrefix :: "('d, 'v) core \<Rightarrow> cache_key \<Rightarrow> cache_key list" where
  "findByPrefix cs p = filter (isPrefixOf p) (remdups (map fst (store cs)))"

text \<open>Modelled from the spec: the entry that \<open>upsert\<close> creates "with defaults".\<close>

definition defaultEntry :: "('d, 'v) core \<Rightarrow> cache_key \<Rightarrow> 'd entry" where
  "defaultEntry cs k = \<lparr>key = k, data = None, status = Idle, error = None,
     lastUpdatedAt = None, staleAfterMs = defaultStaleAfterMs cs,
     retentionMs = defaultRetentionMs cs, observerCount = 0, inFlightRequestId = None,
     invalidated = False\<rparr>"

text \<open>
  Modelled from the spec (4.5): "plain subscribers are always notified; selector
  subscribers are notified only if \<open>selector(newData)\<close> is not equal (by value) to
  \<open>selector(previousData)\<close>".
\<close>

fun wants :: "('d, 'v) subscriber \<Rightarrow> 'd option \<Rightarrow> 'd option \<Rightarrow> bool" where
  "wants (Plain l) previousData newData = True"
| "wants (Selector l sel) previousData newData = (sel newData \<noteq> sel previousData)"

definition notify ::
  "(cache_key \<times> ('d, 'v) subscriber) list \<Rightarrow> cache_key \<Rightarrow> 'd entry \<Rightarrow> 'd entry
     \<Rightarrow> (nat \<times> cache_key \<times> status) list" where
  "notify subs k old new =
     map (\<lambda>(k', s). (listener s, k, status new))
       (filter (\<lambda>(k', s). k' = k \<and> wants s (data old) (data new)) subs)"

text \<open>
  Modelled from the spec: \<open>upsert(key, patch)\<close> "shallow-merges into the existing entry
  or creates one with defaults; triggers notification to all current observers of that
  key". The patch is the function that overwrites the patched attributes, and
  \<open>entryOf\<close> is the entry it is applied to.
\<close>

definition entryOf :: "('d, 'v) core \<Rightarrow> cache_key \<Rightarrow> 'd entry" where
  "entryOf cs k = (case get cs k of None \<Rightarrow> defaultEntry cs k | Some e \<Rightarrow> e)"

definition upsert ::
  "cache_key \<Rightarrow> ('d entry \<Rightarrow> 'd entry) \<Rightarrow> ('d, 'v) core \<Rightarrow> ('d, 'v) core" where
  "upsert k patch cs =
     (let old = entryOf cs k;
          new = patch old
      in cs\<lparr>store := AList.update k new (store cs),
            notifications := notifications cs @ notify (subscribers cs) k old new\<rparr>)"

text \<open>
  Modelled from the spec: \<open>subscribe(key, selector?, listener)\<close> registers the
  subscriber and increments \<open>observerCount\<close> on the entry of the key.
\<close>

definition subscribe ::
  "cache_key \<Rightarrow> ('d, 'v) subscriber \<Rightarrow> ('d, 'v) core \<Rightarrow> ('d, 'v) core" where
  "subscribe k s cs =
     (let cs1 = upsert k (\<lambda>e. e\<lparr>observerCount := Suc (observerCount e)\<rparr>) cs
      in cs1\<lparr>subscribers := subscribers cs1 @ [(k, s)]\<rparr>)"

text \<open>
  Modelled from the spec: \<open>setSnapshot(key, value)\<close>, the direct write of the data of an
  entry, with the new data computed from the current one. The \<open>set\<close> of the counter store
  is this write on the store's key.
\<close>

definition setSnapshot :: "cache_key \<Rightarrow> ('d \<Rightarrow> 'd) \<Rightarrow> ('d, 'v) core \<Rightarrow> ('d, 'v) core" where
  "setSnapshot k f cs = upsert k (\<lambda>e. e\<lparr>data := map_option f (data e)\<rparr>) cs"

section \<open>Query executor\<close>

text \<open>
  Modelled from the spec: "an entry is stale if \<open>now - lastUpdatedAt > staleAfterMs\<close>, or
  if explicitly invalidated". An entry that was never written has nothing fresh to serve
  and counts as stale.
\<close>

definition isStale :: "int \<Rightarrow> 'd entry \<Rightarrow> bool" where
  "isStale now e =
     (invalidated e \<or> (case lastUpdatedAt e of None \<Rightarrow> True | Some t \<Rightarrow> now - t > staleAfterMs e))"

text \<open>
  Modelled from the spec: what the start of a fetch writes into the entry. The entry
  goes to \<open>loading\<close> with the identity of the request; an error is "present only when
  status = error"; the data and the other attributes are retained.
\<close>

definition fetching :: "nat \<Rightarrow> 'd entry \<Rightarrow> 'd entry" where
  "fetching rid e = e\<lparr>status := Loading, error := None, inFlightRequestId := Some rid\<rparr>"

text \<open>
  Modelled from the spec, the deduplication rule: "if \<open>inFlightRequestId\<close> is set for a
  key, a new logical request for that key does not start a second fetch". Otherwise a
  fetch with a new request identity starts.
\<close>

definition startFetch :: "cache_key \<Rightarrow> ('d, 'v) core \<Rightarrow> ('d, 'v) core" where
  "startFetch k cs =
     (case get cs k of
        None \<Rightarrow> cs
      | Some e \<Rightarrow>
          (case inFlightRequestId e of
             Some rid \<Rightarrow> cs
           | None \<Rightarrow>
               (let rid = nextRequestId cs
                in upsert k (fetching rid)
                     (cs\<lparr>nextRequestId := Suc rid, running := (k, rid) # running cs,
                         issued := issued cs @ [(k, rid)]\<rparr>))))"

text \<open>Modelled from the spec: what a caller is given of an entry.\<close>

definition view :: "'d entry \<Rightarrow> 'd result" where
  "view e = \<lparr>r_data = data e, r_status = status e, r_error = error e\<rparr>"

text \<open>The caller registers "to receive the same eventual result" of the key's request.\<close>

definition attach :: "cache_key \<Rightarrow> nat \<Rightarrow> ('d, 'v) core \<Rightarrow> ('d, 'v) core" where
  "attach k caller cs =
     (case get cs k of
        None \<Rightarrow> cs
      | Some e \<Rightarrow>
          (case inFlightRequestId e of
             None \<Rightarrow> cs
           | Some rid \<Rightarrow> cs\<lparr>waiting := waiting cs @ [(rid, caller)]\<rparr>))"

text \<open>
  Modelled from the spec: \<open>query(key, fetcher, options)\<close> at time \<open>now\<close>, for a numbered
  caller; the fetcher acts when the fetch completes (\<open>complete\<close> below). Of the
  options the call recognises, \<open>staleAfterMs\<close> and \<open>retentionMs\<close> are the overrides of
  the key (\<open>staleAfterMs\<close> is "default configurable, per-key overridable"): they are
  written into the entry, which is created when it is absent, and the staleness of the
  entry is judged with them. An entry with a fetch in flight is attached to; a fresh
  entry is served without a network call; a stale one is fetched.
\<close>

definition query ::
  "cache_key \<Rightarrow> options \<Rightarrow> int \<Rightarrow> nat \<Rightarrow> ('d, 'v) core \<Rightarrow> ('d, 'v) core" where
  "query k opts now caller cs =
     (let cs1 = upsert k (\<lambda>e. e\<lparr>staleAfterMs := opt_staleAfterMs opts,
                                  retentionMs := opt_retentionMs opts\<rparr>) cs;
          e = entryOf cs1 k
      in case inFlightRequestId e of
           Some rid \<Rightarrow> attach k caller cs1
         | None \<Rightarrow>
             if isStale now e then attach k caller (startFetch k cs1)
             else cs1\<lparr>delivered := delivered cs1 @ [(caller, view e)]\<rparr>)"

text \<open>
  Modelled from the spec, the retry policy: "on fetch failure, retry up to \<open>N\<close> times".
  The network is the function that gives the outcome of each attempt of a fetch, by the
  number of the attempt. \<open>attempts n fetcher i\<close> makes attempt \<open>i\<close> with \<open>n\<close> retries
  left, and returns the final outcome with the number of attempts made.
\<close>

datatype 'd attempt = Ok 'd | NetworkError string

fun attempts :: "nat \<Rightarrow> (nat \<Rightarrow> 'd attempt) \<Rightarrow> nat \<Rightarrow> 'd attempt \<times> nat" where
  "attempts 0 fetcher i = (fetcher i, Suc i)"
| "attempts (Suc n) fetcher i =
     (case fetcher i of
        Ok v \<Rightarrow> (Ok v, Suc i)
      | NetworkError err \<Rightarrow> attempts n fetcher (Suc i))"

text \<open>
  Modelled from the spec: what a completed fetch writes into the entry. A success stores
  the data with its time and ends the invalidation; after the last failed retry the
  entry goes to \<open>error\<close> and keeps its data. Either way no request is in flight any
  more.
\<close>

definition settled :: "'d attempt \<Rightarrow> int \<Rightarrow> 'd entry \<Rightarrow> 'd entry" where
  "settled outcome now e =
     (case outcome of
        Ok v \<Rightarrow> e\<lparr>data := Some v, status := Success, error := None, lastUpdatedAt := Some now,
                  inFlightRequestId := None, invalidated := False\<rparr>
      | NetworkError err \<Rightarrow> e\<lparr>status := Error, error := Some err, inFlightRequestId := None\<rparr>)"

text \<open>
  Modelled from the spec: the fetch with request identity \<open>rid\<close> runs against the
  network and completes at time \<open>now\<close>. Every attempt is a network call of that
  request. The outcome is written with \<open>upsert\<close>, which notifies the observers, and the
  callers waiting for the request receive the result. A request that is not running is
  ignored.
\<close>

definition complete ::
  "nat \<Rightarrow> (nat \<Rightarrow> 'd attempt) \<Rightarrow> int \<Rightarrow> ('d, 'v) core \<Rightarrow> ('d, 'v) core" where
  "complete rid fetcher now cs =
     (case map_of (map (\<lambda>(k, r). (r, k)) (running cs)) rid of
        None \<Rightarrow> cs
      | Some k \<Rightarrow>
          (let (outcome, n) = attempts (retryCount cs) fetcher 0;
               cs1 = cs\<lparr>running := removeAll (k, rid) (running cs),
                        calls := calls cs @ replicate n (k, rid)\<rparr>;
               cs2 = upsert k (settled outcome now) cs1;
               res = view (entryOf cs2 k)
           in cs2\<lparr>waiting := filter (\<lambda>(r, c). r \<noteq> rid) (waiting cs2),
                   delivered := delivered cs2
                     @ map (\<lambda>(r, c). (c, res)) (filter (\<lambda>(r, c). r = rid) (waiting cs2))\<rparr>))"

text \<open>
  Modelled from the spec: a refetch supersedes what is in flight for the key. The
  entry's \<open>inFlightRequestId\<close> is "used for deduplication and
  cancellation-on-supersede": a fetch in flight for the key was started before the
  refetch was asked for, and is cancelled. It is no longer running, so that its response
  is ignored and the key keeps one fetch in flight; the callers that wait for it wait
  for the new request; and a fetch with a new request identity starts.
\<close>

definition refetch :: "cache_key \<Rightarrow> ('d, 'v) core \<Rightarrow> ('d, 'v) core" where
  "refetch k cs =
     (case get cs k of
        None \<Rightarrow> cs
      | Some e \<Rightarrow>
          (let rid = nextRequestId cs
           in upsert k (fetching rid)
                (cs\<lparr>nextRequestId := Suc rid,
                    running := (k, rid) # filter (\<lambda>(k', r). k' \<noteq> k) (running cs),
                    issued := issued cs @ [(k, rid)],
                    waiting := map (\<lambda>(r, c). (if Some r = inFlightRequestId e then rid else r, c))
                                 (waiting cs)\<rparr>)))"

text \<open>
  Modelled from the spec: \<open>invalidate(keyOrPrefix)\<close> "marks matching entries stale,
  triggering refetch for any entry with active observers".
\<close>

definition invalidateEntry :: "cache_key \<Rightarrow> ('d, 'v) core \<Rightarrow> ('d, 'v) core" where
  "invalidateEntry k cs =
     (case get cs k of
        None \<Rightarrow> cs
      | Some e \<Rightarrow>
          (let cs1 = upsert k (\<lambda>e. e\<lparr>invalidated := True\<rparr>) cs
           in if observerCount e > 0 then refetch k cs1 else cs1))"

definition invalidate :: "cache_key \<Rightarrow> ('d, 'v) core \<Rightarrow> ('d, 'v) core" where
  "invalidate p cs = fold invalidateEntry (findByPrefix cs p) cs"

section \<open>Garbage collector\<close>

text \<open>Modelled from the spec: \<open>remove(key)\<close>, "used only by the Garbage Collector".\<close>

definition remove :: "cache_key \<Rightarrow> ('d, 'v) core \<Rightarrow> ('d, 'v) core" where
  "remove k cs = cs\<lparr>store := AList.delete k (store cs)\<rparr>"

text \<open>
  Modelled from the spec (4.6): a sweep at time \<open>now\<close> removes "every entry with
  \<open>observerCount == 0\<close> and \<open>now - lastUpdatedAt > retentionMs\<close>". An entry that was
  never written has no time to compare, and is kept. So is an entry with a fetch in
  flight: the result of the fetch is still to be written into it, and the invariant of
  section 3, "at most one in-flight fetch per key at a time", has no exception for the
  garbage collector.
\<close>

definition evictable :: "int \<Rightarrow> 'd entry \<Rightarrow> bool" where
  "evictable now e =
     (observerCount e = 0 \<and> inFlightRequestId e = None
      \<and> (case lastUpdatedAt e of None \<Rightarrow> False | Some t \<Rightarrow> now - t > retentionMs e))"

definition evicted :: "int \<Rightarrow> ('d, 'v) core \<Rightarrow> cache_key \<Rightarrow> bool" where
  "evicted now cs k = (case get cs k of None \<Rightarrow> False | Some e \<Rightarrow> evictable now e)"

definition sweep :: "int \<Rightarrow> ('d, 'v) core \<Rightarrow> ('d, 'v) core" where
  "sweep now cs = fold remove (filter (evicted now cs) (map fst (store cs))) cs"

section \<open>Runs of a cache instance\<close>

text \<open>The operations of a cache instance, and a run of a sequence of them.\<close>

datatype ('d, 'v) operation =
    Query cache_key options int nat
  | Complete nat "nat \<Rightarrow> 'd attempt" int
  | Invalidate cache_key
  | Subscribe cache_key "('d, 'v) subscriber"
  | SetSnapshot cache_key "'d \<Rightarrow> 'd"
  | Sweep int

fun apply_op :: "('d, 'v) operation \<Rightarrow> ('d, 'v) core \<Rightarrow> ('d, 'v) core" where
  "apply_op (Query k opts now caller) cs = query k opts now caller cs"
| "apply_op (Complete rid fetcher now) cs = complete rid fetcher now cs"
| "apply_op (Invalidate p) cs = invalidate p cs"
| "apply_op (Subscribe k s) cs = subscribe k s cs"
| "apply_op (SetSnapshot k f) cs = setSnapshot k f cs"
| "apply_op (Sweep now) cs = sweep now cs"

definition run :: "('d, 'v) operation list \<Rightarrow> ('d, 'v) core \<Rightarrow> ('d, 'v) core" where
  "run ops cs = fold apply_op ops cs"

section \<open>Notions used to state the properties\<close>

text \<open>The number of fetches issued for a key so far.\<close>

definition fetchCount :: "('d, 'v) core \<Rightarrow> cache_key \<Rightarrow> nat" where
  "fetchCount cs k = length (filter (\<lambda>(k', r). k' = k) (issued cs))"

text \<open>The fetches that are executing for a key.\<close>

definition inFlight :: "('d, 'v) core \<Rightarrow> cache_key \<Rightarrow> nat list" where
  "inFlight cs k = map snd (filter (\<lambda>(k', r). k' = k) (running cs))"


definition deliveries :: "('d, 'v) core \<Rightarrow> ('d, 'v) core \<Rightarrow> (nat \<times> 'd result) list" where
  "deliveries cs cs' = drop (length (delivered cs)) (delivered cs')"

text \<open>
  The entry a query call finds, or creates, with the options of the call written into
  it.
\<close>

definition found :: "('d, 'v) core \<Rightarrow> cache_key \<Rightarrow> options \<Rightarrow> 'd entry" where
  "found cs k opts =
     (entryOf cs k)\<lparr>staleAfterMs := opt_staleAfterMs opts, retentionMs := opt_retentionMs opts\<rparr>"

text \<open>
  A query call on this key with these options at this time starts a fetch: the entry
  has no fetch in flight, and it is stale (an absent entry is: it was never written).
\<close>

definition needsFetch :: "('d, 'v) core \<Rightarrow> cache_key \<Rightarrow> options \<Rightarrow> int \<Rightarrow> bool" where
  "needsFetch cs k opts now \<longleftrightarrow>
     inFlightRequestId (found cs k opts) = None \<and> isStale now (found cs k opts)"

text \<open>
  The operations that write or discard data: the direct write, the completion of a
  request whose fetch succeeds within the retries, and the sweep of the garbage
  collector.
\<close>

fun writesData :: "('d, 'v) operation \<Rightarrow> ('d, 'v) core \<Rightarrow> bool" where
  "writesData (SetSnapshot k f) cs = True"
| "writesData (Complete rid fetcher now) cs =
     (case fst (attempts (retryCount cs) fetcher 0) of Ok v \<Rightarrow> True | NetworkError err \<Rightarrow> False)"
| "writesData (Query k opts now caller) cs = False"
| "writesData (Invalidate p) cs = False"
| "writesData (Subscribe k s) cs = False"
| "writesData (Sweep now) cs = True"

text \<open>
  The request \<open>rid\<close> is running, for the key \<open>k\<close>: it is what \<open>complete\<close> looks up.
\<close>

definition runs :: "('d, 'v) core \<Rightarrow> nat \<Rightarrow> cache_key \<Rightarrow> bool" where
  "runs cs rid k \<longleftrightarrow> map_of (map (\<lambda>(k, r). (r, k)) (running cs)) rid = Some k"

text \<open>
  The executor's record of the requests agrees with the fetches that are executing: no
  key has two of them, and the entry of a key with a running fetch holds its identity.
\<close>

definition consistent :: "('d, 'v) core \<Rightarrow> bool" where
  "consistent cs \<longleftrightarrow>
     distinct (map fst (running cs))
     \<and> (\<forall>(k, r) \<in> set (running cs). \<exists>e. get cs k = Some e \<and> inFlightRequestId e = Some r)"

section \<open>Example states\<close>

text \<open>
  States of a cache instance used to evaluate the properties: an entry of a child key
  with an observer, fetched at time 0, and the same while it is fetched again at time
  200000; the todos with an observer while their first fetch is in flight, after it
  succeeded at time 5, and while they are fetched again at time 200000; the counter
  store with a subscriber that selects \<open>counter\<close>
  and a plain one; the todos fetched at time 0 with ten milliseconds of freshness; and
  an instance where the todos have a subscriber and were never queried.
\<close>

definition ex_observed :: "(nat, nat) core" where
  "ex_observed =
     run [Query [Str ''users'', Nmb 7, Str ''posts''] useTodos_options 0 1,
          Subscribe [Str ''users'', Nmb 7, Str ''posts''] (Plain 1),
          Complete 0 (\<lambda>i. Ok 42) 0] create"

definition ex_observed_refetching :: "(nat, nat) core" where
  "ex_observed_refetching =
     run [Query [Str ''users'', Nmb 7, Str ''posts''] useTodos_options 200000 2] ex_observed"

definition ex_loading :: "(nat, nat) core" where
  "ex_loading =
     run [Query CACHE_KEY_TODOS useTodos_options 0 1, Subscribe CACHE_KEY_TODOS (Plain 7)] create"

definition ex_loaded :: "(nat, nat) core" where
  "ex_loaded = run [Complete 0 (\<lambda>i. Ok 42) 5] ex_loading"

definition ex_reloading :: "(nat, nat) core" where
  "ex_reloading = run [Query CACHE_KEY_TODOS useTodos_options 200000 2] ex_loaded"


definition ex_options :: options where
  "ex_options = \<lparr>opt_staleAfterMs = 10, opt_retentionMs = 300000\<rparr>"

definition ex_fetched :: "(nat, nat) core" where
  "ex_fetched = run [Query CACHE_KEY_TODOS ex_options 0 1, Complete 0 (\<lambda>i. Ok 42) 0] create"

definition ex_subscribed :: "(nat, nat) core" where
  "ex_subscribed = run [Subscribe CACHE_KEY_TODOS (Plain 7)] create"

chapter \<open>Properties\<close>

section \<open>The task reducer\<close>

lemma taskReducer_provider_eq: "taskReducer_provider tasks a = taskReducer tasks a"
  by (cases a) simp_all

lemma filter_fresh_id:
  "\<forall>task \<in> set ts. strict_neq i (id' task) \<Longrightarrow> filter (\<lambda>task. strict_neq i (id' task)) ts = ts"
  by (induction ts) simp_all

lemma taskReducer_store_value:
  "fst (taskReducer_store h r a) ! snd (taskReducer_store h r a) = taskReducer (h ! r) a"
  by (cases a) (simp_all add: alloc_def)

lemma taskReducer_store_frame:
  "i < length h \<Longrightarrow> fst (taskReducer_store h r a) ! i = h ! i"
  by (cases a) (simp_all add: alloc_def nth_append)

text \<open>
  C8. The reducer is a pure, deterministic transition function. Two runs, in any two
  stores, on arrays with equal contents and with the same action produce arrays with
  equal contents, the content being the one the branch prescribes (the task prepended,
  the tasks with another id, or the input). A run changes no array that exists (the
  input array among them): the only effect on the store is the allocation of the result
  of an ADD or a DELETE, which is a new array, and any other action returns the very
  array it was given and leaves the store as it is.
\<close>

theorem taskReducer_pure:
  assumes "r1 < length h1" and "r2 < length h2" and "h1 ! r1 = h2 ! r2"
  shows "fst (taskReducer_store h1 r1 a) ! snd (taskReducer_store h1 r1 a)
           = fst (taskReducer_store h2 r2 a) ! snd (taskReducer_store h2 r2 a)
       \<and> fst (taskReducer_store h1 r1 a) ! snd (taskReducer_store h1 r1 a)
           = taskReducer (h1 ! r1) a
       \<and> taskReducer (h1 ! r1) a
           = (case a of ADD task \<Rightarrow> task # h1 ! r1
              | DELETE taskId \<Rightarrow> filter (\<lambda>task. strict_neq taskId (id' task)) (h1 ! r1)
              | OTHER \<Rightarrow> h1 ! r1)
       \<and> (\<forall>i < length h1. fst (taskReducer_store h1 r1 a) ! i = h1 ! i)
       \<and> (case a of OTHER \<Rightarrow> taskReducer_store h1 r1 a = (h1, r1)
           | _ \<Rightarrow> snd (taskReducer_store h1 r1 a) = length h1
                \<and> length (fst (taskReducer_store h1 r1 a)) = Suc (length h1))"
proof -
  have "fst (taskReducer_store h1 r1 a) ! snd (taskReducer_store h1 r1 a)
          = taskReducer (h1 ! r1) a"
    by (rule taskReducer_store_value)
  moreover have "fst (taskReducer_store h2 r2 a) ! snd (taskReducer_store h2 r2 a)
          = taskReducer (h1 ! r1) a"
    using assms(3) by (simp add: taskReducer_store_value)
  moreover have "taskReducer (h1 ! r1) a
           = (case a of ADD task \<Rightarrow> task # h1 ! r1
              | DELETE taskId \<Rightarrow> filter (\<lambda>task. strict_neq taskId (id' task)) (h1 ! r1)
              | OTHER \<Rightarrow> h1 ! r1)"
    by (cases a) simp_all
  moreover have "\<forall>i < length h1. fst (taskReducer_store h1 r1 a) ! i = h1 ! i"
    by (simp add: taskReducer_store_frame)
  moreover have "case a of OTHER \<Rightarrow> taskReducer_store h1 r1 a = (h1, r1)
           | _ \<Rightarrow> snd (taskReducer_store h1 r1 a) = length h1
                \<and> length (fst (taskReducer_store h1 r1 a)) = Suc (length h1)"
    by (cases a) (simp_all add: alloc_def)
  ultimately show ?thesis by simp
qed

theorem taskReducer_pure_witness:
  "fst (taskReducer_store [[\<lparr>id' = Num 1, title = ''a''\<rparr>], []] 0 (DELETE (Num 1)))
     ! snd (taskReducer_store [[\<lparr>id' = Num 1, title = ''a''\<rparr>], []] 0 (DELETE (Num 1)))
   = fst (taskReducer_store [[\<lparr>id' = Num 1, title = ''a''\<rparr>]] 0 (DELETE (Num 1)))
     ! snd (taskReducer_store [[\<lparr>id' = Num 1, title = ''a''\<rparr>]] 0 (DELETE (Num 1)))
   \<and> taskReducer_store [[\<lparr>id' = Num 1, title = ''a''\<rparr>], []] 0 (DELETE (Num 1))
     = ([[\<lparr>id' = Num 1, title = ''a''\<rparr>], [], []], 2)"
  using taskReducer_pure [of 0 "[[\<lparr>id' = Num 1, title = ''a''\<rparr>], []]" 0
      "[[\<lparr>id' = Num 1, title = ''a''\<rparr>]]" "DELETE (Num 1)"]
  by (simp add: alloc_def strict_neq_def)

text \<open>
  C9 as stated: for every task list and every task whose id does not occur in it, ADD
  followed by DELETE of that id gives the list back. It fails for a task whose id is
  \<open>NaN\<close>: \<open>NaN !== NaN\<close> is true, so DELETE keeps the task that was just added.
\<close>

theorem taskReducer_add_delete_counterexample:
  "\<not> (\<forall>ts t. id' t \<notin> id' ` set ts \<longrightarrow>
        taskReducer (taskReducer ts (ADD t)) (DELETE (id' t)) = ts)"
proof
  assume a: "\<forall>ts t. id' t \<notin> id' ` set ts \<longrightarrow>
        taskReducer (taskReducer ts (ADD t)) (DELETE (id' t)) = ts"
  have "taskReducer (taskReducer [] (ADD \<lparr>id' = NaN, title = ''a''\<rparr>)) (DELETE NaN) = []"
    using a [rule_format, of "\<lparr>id' = NaN, title = ''a''\<rparr>" "[]"] by simp
  then show False by (simp add: strict_neq_def)
qed

text \<open>
  C9, amended: for every task list and every task whose id is not \<open>NaN\<close> and does
  not occur in the list, ADD followed by DELETE of that id gives the list back, in both
  copies of the reducer.
\<close>

theorem taskReducer_add_delete:
  assumes "id' t \<noteq> NaN" and "id' t \<notin> id' ` set ts"
  shows "taskReducer (taskReducer ts (ADD t)) (DELETE (id' t)) = ts
       \<and> taskReducer_provider (taskReducer_provider ts (ADD t)) (DELETE (id' t)) = ts"
proof -
  have "\<forall>task \<in> set ts. strict_neq (id' t) (id' task)"
    using assms(2) by (auto simp: strict_neq_def)
  then have "filter (\<lambda>task. strict_neq (id' t) (id' task)) ts = ts"
    by (rule filter_fresh_id)
  moreover have "\<not> strict_neq (id' t) (id' t)"
    using assms(1) by (simp add: strict_neq_def)
  ultimately show ?thesis
    by (simp add: taskReducer_provider_eq)
qed

theorem taskReducer_add_delete_witness:
  "id' \<lparr>id' = Num 2, title = ''b''\<rparr> \<noteq> NaN
   \<and> id' \<lparr>id' = Num 2, title = ''b''\<rparr>
       \<notin> id' ` set [\<lparr>id' = Num 1, title = ''a''\<rparr>, \<lparr>id' = NaN, title = ''c''\<rparr>]
   \<and> taskReducer
        (taskReducer [\<lparr>id' = Num 1, title = ''a''\<rparr>, \<lparr>id' = NaN, title = ''c''\<rparr>]
          (ADD \<lparr>id' = Num 2, title = ''b''\<rparr>))
        (DELETE (Num 2))
       = [\<lparr>id' = Num 1, title = ''a''\<rparr>, \<lparr>id' = NaN, title = ''c''\<rparr>]"
  using taskReducer_add_delete [of "\<lparr>id' = Num 2, title = ''b''\<rparr>"
      "[\<lparr>id' = Num 1, title = ''a''\<rparr>, \<lparr>id' = NaN, title = ''c''\<rparr>]"]
  by simp

section \<open>The optimistic mutation hook\<close>

lemma same_fields_eq: "same_fields a b \<Longrightarrow> a = b"
  by (cases a, cases b) (auto simp: same_fields_def strict_neq_def)

lemma replaceEqualDeep_object_value:
  "replaceEqualDeep_object n a b = (n', z) \<Longrightarrow> snd z = snd b"
  by (auto simp: replaceEqualDeep_object_def same_fields_eq split: if_splits)

lemma replaceEqualDeep_value: "map snd (snd (replaceEqualDeep n a b)) = map snd b"
proof (induction n a b rule: replaceEqualDeep.induct)
  case (3 n x a y b)
  obtain n1 z where o: "replaceEqualDeep_object n x y = (n1, z)"
    by (cases "replaceEqualDeep_object n x y")
  obtain n2 zs where r: "replaceEqualDeep n1 a b = (n2, zs)"
    by (cases "replaceEqualDeep n1 a b")
  have "map snd zs = map snd b"
    using "3.IH" [OF o [symmetric]] r by simp
  moreover have "snd z = snd y"
    using o by (rule replaceEqualDeep_object_value)
  ultimately show ?case
    by (simp add: o r)
qed simp_all

lemma replaceData_value: "map snd (snd (replaceData n prevData d)) = map snd d"
  by (simp add: replaceData_def replaceEqualDeep_value split: option.splits)

lemma contents_setQueryData:
  "contents (setQueryData qc k updater) k' =
     (if k' = k
      then (case updater (queries qc k) of
              None \<Rightarrow> contents qc k
            | Some d \<Rightarrow> Some (map snd d))
      else contents qc k')"
proof (cases "updater (queries qc k)")
  case None
  then show ?thesis by (simp add: setQueryData_def)
next
  case (Some d)
  obtain n d' where r: "replaceData (objects qc) (queries qc k) d = (n, d')"
    by (cases "replaceData (objects qc) (queries qc k) d")
  have "map snd d' = map snd d"
    using replaceData_value [of "objects qc" "queries qc k" d] r by simp
  then show ?thesis
    using Some r by (simp add: setQueryData_def contents_def)
qed

lemma queries_setQueryData:
  "k' \<noteq> k \<Longrightarrow> queries (setQueryData qc k updater) k' = queries qc k'"
  by (simp add: setQueryData_def split: option.splits prod.splits)

lemma contents_or_empty: "map snd (or_empty (queries qc k)) = or_empty (contents qc k)"
  by (simp add: or_empty_def contents_def split: option.splits)

lemma contents_rejected:
  "contents (fst (mutate qc n (Rejected e))) k =
     (if k = CACHE_KEY_TODOS then Some (or_empty (contents qc CACHE_KEY_TODOS)) else contents qc k)"
  by (simp add: mutate_def onMutate_def onError_def getQueryData_def Let_def
        contents_setQueryData contents_or_empty)

lemma queries_rejected:
  "k \<noteq> CACHE_KEY_TODOS \<Longrightarrow> queries (fst (mutate qc n (Rejected e))) k = queries qc k"
  by (simp add: mutate_def onMutate_def onError_def Let_def queries_setQueryData)

lemma contents_rejected_present:
  "contents qc CACHE_KEY_TODOS \<noteq> None \<Longrightarrow> contents (fst (mutate qc n (Rejected e))) = contents qc"
  by (rule ext) (auto simp: contents_rejected or_empty_def)

lemma contents_mutate_failing:
  "contents qc CACHE_KEY_TODOS \<noteq> None \<Longrightarrow> contents (mutate_failing qc ms) = contents qc"
proof (induction ms arbitrary: qc)
  case Nil
  then show ?case by simp
next
  case (Cons m ms)
  obtain n e where m: "m = (n, e)" by (cases m)
  have c: "contents (fst (mutate qc n (Rejected e))) = contents qc"
    using Cons.prems by (rule contents_rejected_present)
  then have "contents (fst (mutate qc n (Rejected e))) CACHE_KEY_TODOS \<noteq> None"
    using Cons.prems by simp
  from Cons.IH [OF this] c show ?case
    by (simp add: m)
qed

text \<open>
  C1 as stated: after a failed mutation the entry of \<open>["todos"]\<close> is what it was before
  the optimistic write, also when it was absent. It fails for the absent entry: the
  snapshot of an absent entry is the empty array, and the rollback writes it, so the
  entry is present afterwards, with no todos.
\<close>

theorem rollback_absent_counterexample:
  "contents ex_client_absent CACHE_KEY_TODOS = None
   \<and> contents (fst (mutate ex_client_absent ex_newTodo (Rejected ''Network Error''))) CACHE_KEY_TODOS
       = Some []
   \<and> contents (fst (mutate ex_client_absent ex_newTodo (Rejected ''Network Error''))) CACHE_KEY_TODOS
       \<noteq> contents ex_client_absent CACHE_KEY_TODOS"
proof -
  have "contents ex_client_absent CACHE_KEY_TODOS = None"
    by (simp add: contents_def ex_client_absent_def)
  then show ?thesis
    by (simp add: contents_rejected or_empty_def)
qed

text \<open>
  C1, amended: a mutation that fails leaves every other entry as it was, surfaces the
  error, and leaves the entry of \<open>["todos"]\<close> holding the snapshot taken in \<open>onMutate\<close>:
  the list it held before the optimistic write when it was present, and the empty list
  when it was absent. When the entry was present the whole cache is what it was before
  the mutation, and so it is after any sequence of mutations that all fail. The lists
  are equal todo for todo and field for field.
\<close>

theorem rollback_restores_snapshot:
  "contents (fst (mutate qc n (Rejected e))) CACHE_KEY_TODOS
     = Some (case contents qc CACHE_KEY_TODOS of None \<Rightarrow> [] | Some ts \<Rightarrow> ts)
   \<and> (\<forall>k. k \<noteq> CACHE_KEY_TODOS \<longrightarrow> queries (fst (mutate qc n (Rejected e))) k = queries qc k)
   \<and> snd (mutate qc n (Rejected e)) = Some e
   \<and> (contents qc CACHE_KEY_TODOS \<noteq> None \<longrightarrow>
        contents (fst (mutate qc n (Rejected e))) = contents qc
        \<and> contents (mutate_failing qc ms) = contents qc)"
proof -
  have "contents qc CACHE_KEY_TODOS \<noteq> None \<longrightarrow>
        contents (fst (mutate qc n (Rejected e))) = contents qc
        \<and> contents (mutate_failing qc ms) = contents qc"
    using contents_rejected_present contents_mutate_failing by blast
  moreover have "snd (mutate qc n (Rejected e)) = Some e"
    by (simp add: mutate_def split: prod.splits)
  ultimately show ?thesis
    by (simp add: contents_rejected queries_rejected or_empty_def)
qed

theorem rollback_restores_snapshot_witness:
  "contents ex_client CACHE_KEY_TODOS = Some [snd ex_todo1, snd ex_todo2]
   \<and> contents (fst (onMutate ex_client ex_newTodo)) CACHE_KEY_TODOS
       = Some [snd ex_newTodo, snd ex_todo1, snd ex_todo2]
   \<and> contents (fst (mutate ex_client ex_newTodo (Rejected ''Network Error''))) CACHE_KEY_TODOS
       = Some [snd ex_todo1, snd ex_todo2]
   \<and> contents (mutate_failing ex_client [(ex_newTodo, ''Network Error''), (ex_newTodo, ''400'')])
       = contents ex_client
   \<and> queries (fst (mutate ex_client ex_newTodo (Rejected ''Network Error''))) [Str ''posts'']
       = None"
proof -
  have c: "contents ex_client CACHE_KEY_TODOS = Some [snd ex_todo1, snd ex_todo2]"
    by (simp add: contents_def ex_client_def)
  have m: "contents (fst (onMutate ex_client ex_newTodo)) CACHE_KEY_TODOS
       = Some [snd ex_newTodo, snd ex_todo1, snd ex_todo2]"
    by (simp add: onMutate_def Let_def contents_setQueryData or_empty_def ex_client_def)
  have p: "queries ex_client [Str ''posts''] = None"
    by (simp add: ex_client_def CACHE_KEY_TODOS_def)
  from rollback_restores_snapshot [of ex_client ex_newTodo "''Network Error''"
      "[(ex_newTodo, ''Network Error''), (ex_newTodo, ''400'')]"] c m p
  show ?thesis
    by (simp add: CACHE_KEY_TODOS_def)
qed

text \<open>
  C3. When the mutation succeeds, the todo written by the optimistic update is to be
  replaced by the todo the server returned, and the hook's comment says so ("if the
  request is successful, we replace the newTodo with the one we get from the backend").
  \<open>onSuccess\<close> looks for the submitted object in the cached list with \<open>===\<close>. It finds
  it when the optimistic write was made on an absent entry or on an empty list, and the
  entry then holds the server's todo (\<open>id: 42\<close>) and not the speculative one. When todos
  were cached already, the optimistic write stored a new object with the fields of the
  submitted one, not the submitted object; \<open>onSuccess\<close> finds nothing to replace, the
  speculative todo (\<open>id: 0\<close>) stays in the entry and the server's todo never enters it.
\<close>

theorem onSuccess_misses_speculative:
  "contents ex_client CACHE_KEY_TODOS = Some [snd ex_todo1, snd ex_todo2]
   \<and> contents (fst (onMutate ex_client ex_newTodo)) CACHE_KEY_TODOS
       = Some [snd ex_newTodo, snd ex_todo1, snd ex_todo2]
   \<and> ex_newTodo \<notin> set (or_empty (queries (fst (onMutate ex_client ex_newTodo)) CACHE_KEY_TODOS))
   \<and> contents (fst (mutate ex_client ex_newTodo (Resolved ex_savedTodo))) CACHE_KEY_TODOS
       = Some [snd ex_newTodo, snd ex_todo1, snd ex_todo2]
   \<and> map todo_id
        (or_empty (contents (fst (mutate ex_client ex_newTodo (Resolved ex_savedTodo)))
           CACHE_KEY_TODOS))
       = [Num 0, Num 1, Num 2]
   \<and> snd (mutate ex_client ex_newTodo (Resolved ex_savedTodo)) = None
   \<and> contents (fst (mutate ex_client_empty ex_newTodo (Resolved ex_savedTodo))) CACHE_KEY_TODOS
       = Some [snd ex_savedTodo]
   \<and> contents (fst (mutate ex_client_absent ex_newTodo (Resolved ex_savedTodo))) CACHE_KEY_TODOS
       = Some [snd ex_savedTodo]"
  by (simp add: mutate_def onMutate_def onSuccess_def setQueryData_def getQueryData_def
        replaceData_def replaceEqualDeep_object_def same_fields_def strict_neq_def
        or_empty_def contents_def Let_def
        ex_client_def ex_client_empty_def ex_client_absent_def
        ex_newTodo_def ex_savedTodo_def ex_todo1_def ex_todo2_def)

section \<open>The login reducer\<close>

text \<open>
  C10. The result of the login reducer does not depend on the prior state: it is the
  user of a LOGIN action and the empty string for every other action. An action that is
  neither LOGIN nor LOGOUT does not keep the logged-in user: it resets the state to the
  empty string. Both copies of the reducer agree.
\<close>

theorem AuthReducer_ignores_state:
  "AuthReducer s a = (case a of LOGIN user \<Rightarrow> user | LOGOUT \<Rightarrow> '''' | UNKNOWN \<Rightarrow> '''')
   \<and> AuthReducer s a = AuthReducer s' a
   \<and> AuthReducer s UNKNOWN = ''''
   \<and> AuthReducer_provider s a = AuthReducer s a"
  by (cases a) simp_all

theorem AuthReducer_ignores_state_witness:
  "AuthReducer ''mosh.hamedani'' UNKNOWN = '''' \<and> AuthReducer ''mosh.hamedani'' UNKNOWN \<noteq> ''mosh.hamedani''"
  using AuthReducer_ignores_state [of "''mosh.hamedani''" UNKNOWN "''''"]
  by simp

chapter \<open>Properties of the cache core\<close>

section \<open>The cache core: store and registry\<close>

lemma isPrefixOf_iff: "isPrefixOf a b \<longleftrightarrow> (\<exists>c. b = a @ c)"
  by (induction a b rule: isPrefixOf.induct) auto

lemma get_upsert:
  "get (upsert k patch cs) k' = (if k' = k then Some (patch (entryOf cs k)) else get cs k')"
  by (simp add: get_def upsert_def Let_def update_conv')

lemma upsert_frame [simp]:
  "running (upsert k patch cs) = running cs"
  "issued (upsert k patch cs) = issued cs"
  "calls (upsert k patch cs) = calls cs"
  "nextRequestId (upsert k patch cs) = nextRequestId cs"
  "retryCount (upsert k patch cs) = retryCount cs"
  "waiting (upsert k patch cs) = waiting cs"
  "delivered (upsert k patch cs) = delivered cs"
  "subscribers (upsert k patch cs) = subscribers cs"
  "defaultStaleAfterMs (upsert k patch cs) = defaultStaleAfterMs cs"
  "defaultRetentionMs (upsert k patch cs) = defaultRetentionMs cs"
  by (simp_all add: upsert_def Let_def)

lemma notifications_upsert:
  "notifications (upsert k patch cs)
     = notifications cs @ notify (subscribers cs) k (entryOf cs k) (patch (entryOf cs k))"
  by (simp add: upsert_def Let_def)

lemma get_update_fields [simp]:
  "get (cs\<lparr>nextRequestId := a, running := b, issued := c\<rparr>) k = get cs k"
  "get (cs\<lparr>nextRequestId := a, running := b, issued := c, waiting := w\<rparr>) k = get cs k"
  "get (cs\<lparr>running := b, calls := d\<rparr>) k = get cs k"
  "get (cs\<lparr>waiting := w\<rparr>) k = get cs k"
  "get (cs\<lparr>delivered := dl\<rparr>) k = get cs k"
  "get (cs\<lparr>waiting := w, delivered := dl\<rparr>) k = get cs k"
  "get (cs\<lparr>subscribers := sb\<rparr>) k = get cs k"
  by (simp_all add: get_def)

lemma entryOf_update_fields [simp]:
  "entryOf (cs\<lparr>nextRequestId := a, running := b, issued := c\<rparr>) k = entryOf cs k"
  "entryOf (cs\<lparr>nextRequestId := a, running := b, issued := c, waiting := w\<rparr>) k = entryOf cs k"
  "entryOf (cs\<lparr>running := b, calls := d\<rparr>) k = entryOf cs k"
  by (simp_all add: entryOf_def defaultEntry_def split: option.splits)

lemma entryOf_Some: "get cs k = Some e \<Longrightarrow> entryOf cs k = e"
  by (simp add: entryOf_def)

lemma entryOf_upsert: "entryOf (upsert k patch cs) k = patch (entryOf cs k)"
  by (simp add: entryOf_def get_upsert)

lemma get_in_keys: "get cs k = Some e \<Longrightarrow> k \<in> set (map fst (store cs))"
  by (auto simp: get_def dest: map_of_SomeD intro: rev_image_eqI)

lemma filter_key_same: "filter (\<lambda>(k', r). k' = k) (filter (\<lambda>(k', r). k' \<noteq> k) xs) = []"
  by (induction xs) auto

lemma filter_key_other:
  "a \<noteq> k \<Longrightarrow>
   filter (\<lambda>(k', r). k' = k) (filter (\<lambda>(k', r). k' \<noteq> a) xs) = filter (\<lambda>(k', r). k' = k) xs"
  by (induction xs) auto

section \<open>The cache core: starting a fetch\<close>

lemma fetching_fields [simp]:
  "data (fetching rid e) = data e"
  "status (fetching rid e) = Loading"
  "error (fetching rid e) = None"
  "inFlightRequestId (fetching rid e) = Some rid"
  "observerCount (fetching rid e) = observerCount e"
  "invalidated (fetching rid e) = invalidated e"
  "lastUpdatedAt (fetching rid e) = lastUpdatedAt e"
  "staleAfterMs (fetching rid e) = staleAfterMs e"
  by (simp_all add: fetching_def)

lemma get_startFetch:
  "get (startFetch k cs) k' =
     (if k' = k
      then map_option
             (\<lambda>e. if inFlightRequestId e = None then fetching (nextRequestId cs) e else e)
             (get cs k)
      else get cs k')"
  by (auto simp: startFetch_def get_upsert entryOf_def Let_def split: option.splits)

lemma issued_startFetch:
  "issued (startFetch k cs) =
     (case get cs k of None \<Rightarrow> issued cs
      | Some e \<Rightarrow> if inFlightRequestId e = None then issued cs @ [(k, nextRequestId cs)]
                  else issued cs)"
  by (auto simp: startFetch_def Let_def split: option.splits)

lemma running_startFetch:
  "running (startFetch k cs) =
     (case get cs k of None \<Rightarrow> running cs
      | Some e \<Rightarrow> if inFlightRequestId e = None then (k, nextRequestId cs) # running cs
                  else running cs)"
  by (auto simp: startFetch_def Let_def split: option.splits)

lemma startFetch_frame [simp]:
  "waiting (startFetch k cs) = waiting cs"
  "delivered (startFetch k cs) = delivered cs"
  "calls (startFetch k cs) = calls cs"
  "retryCount (startFetch k cs) = retryCount cs"
  "subscribers (startFetch k cs) = subscribers cs"
  by (auto simp: startFetch_def Let_def split: option.splits)

lemma attach_frame [simp]:
  "get (attach k c cs) k' = get cs k'"
  "running (attach k c cs) = running cs"
  "issued (attach k c cs) = issued cs"
  "calls (attach k c cs) = calls cs"
  "delivered (attach k c cs) = delivered cs"
  "retryCount (attach k c cs) = retryCount cs"
  "nextRequestId (attach k c cs) = nextRequestId cs"
  "notifications (attach k c cs) = notifications cs"
  "subscribers (attach k c cs) = subscribers cs"
  by (auto simp: attach_def split: option.splits)

lemma waiting_attach:
  "waiting (attach k c cs) =
     (case get cs k of None \<Rightarrow> waiting cs
      | Some e \<Rightarrow> (case inFlightRequestId e of None \<Rightarrow> waiting cs
                   | Some rid \<Rightarrow> waiting cs @ [(rid, c)]))"
  by (auto simp: attach_def split: option.splits)

section \<open>Prefix invalidation\<close>

lemma get_refetch:
  "get (refetch k cs) k' =
     (if k' = k then map_option (fetching (nextRequestId cs)) (get cs k) else get cs k')"
  by (auto simp: refetch_def get_upsert entryOf_def Let_def split: option.splits)

lemma issued_refetch:
  "issued (refetch k cs) =
     (case get cs k of None \<Rightarrow> issued cs | Some e \<Rightarrow> issued cs @ [(k, nextRequestId cs)])"
  by (auto simp: refetch_def Let_def split: option.splits)

lemma running_refetch:
  "running (refetch k cs) =
     (case get cs k of None \<Rightarrow> running cs
      | Some e \<Rightarrow> (k, nextRequestId cs) # filter (\<lambda>(k', r). k' \<noteq> k) (running cs))"
  by (auto simp: refetch_def Let_def split: option.splits)

lemma nextRequestId_refetch:
  "nextRequestId (refetch k cs) =
     (case get cs k of None \<Rightarrow> nextRequestId cs | Some e \<Rightarrow> Suc (nextRequestId cs))"
  by (auto simp: refetch_def Let_def split: option.splits)

lemma get_invalidateEntry:
  "get (invalidateEntry a cs) k =
     (if k = a
      then map_option
             (\<lambda>e. if observerCount e > 0
                   then fetching (nextRequestId cs) (e\<lparr>invalidated := True\<rparr>)
                   else e\<lparr>invalidated := True\<rparr>)
             (get cs a)
      else get cs k)"
  by (auto simp: invalidateEntry_def get_refetch get_upsert entryOf_def Let_def
        split: option.splits)

lemma issued_invalidateEntry:
  "issued (invalidateEntry a cs) =
     (case get cs a of None \<Rightarrow> issued cs
      | Some e \<Rightarrow> if observerCount e > 0 then issued cs @ [(a, nextRequestId cs)]
                  else issued cs)"
  by (auto simp: invalidateEntry_def issued_refetch get_upsert Let_def split: option.splits)

lemma running_invalidateEntry:
  "running (invalidateEntry a cs) =
     (case get cs a of None \<Rightarrow> running cs
      | Some e \<Rightarrow> if observerCount e > 0
                  then (a, nextRequestId cs) # filter (\<lambda>(k', r). k' \<noteq> a) (running cs)
                  else running cs)"
  by (auto simp: invalidateEntry_def running_refetch get_upsert Let_def split: option.splits)

lemma nextRequestId_invalidateEntry: "nextRequestId cs \<le> nextRequestId (invalidateEntry a cs)"
  by (auto simp: invalidateEntry_def nextRequestId_refetch get_upsert Let_def
        split: option.splits)

lemma fetchCount_invalidateEntry:
  "fetchCount (invalidateEntry a cs) k =
     fetchCount cs k +
       (case get cs a of None \<Rightarrow> 0
        | Some e \<Rightarrow> if a = k \<and> observerCount e > 0 then 1 else 0)"
  by (auto simp: fetchCount_def issued_invalidateEntry split: option.splits)

lemma inFlight_invalidateEntry:
  "inFlight (invalidateEntry a cs) k =
     (case get cs a of None \<Rightarrow> inFlight cs k
      | Some e \<Rightarrow> if a = k \<and> observerCount e > 0 then [nextRequestId cs] else inFlight cs k)"
  by (auto simp: inFlight_def running_invalidateEntry filter_key_same filter_key_other
        simp del: filter_filter split: option.splits)

lemma fold_invalidateEntry_get:
  "k \<notin> set ks \<Longrightarrow> get (fold invalidateEntry ks cs) k = get cs k"
  by (induction ks arbitrary: cs) (auto simp: get_invalidateEntry)

lemma fold_invalidateEntry_fetchCount:
  "k \<notin> set ks \<Longrightarrow> fetchCount (fold invalidateEntry ks cs) k = fetchCount cs k"
  by (induction ks arbitrary: cs) (auto simp: fetchCount_invalidateEntry split: option.splits)

lemma fold_invalidateEntry_inFlight:
  "k \<notin> set ks \<Longrightarrow> inFlight (fold invalidateEntry ks cs) k = inFlight cs k"
  by (induction ks arbitrary: cs) (auto simp: inFlight_invalidateEntry split: option.splits)

lemma fold_invalidateEntry_nextRequestId:
  "nextRequestId cs \<le> nextRequestId (fold invalidateEntry ks cs)"
proof (induction ks arbitrary: cs)
  case Nil
  then show ?case by simp
next
  case (Cons a ks)
  have "nextRequestId cs \<le> nextRequestId (invalidateEntry a cs)"
    by (rule nextRequestId_invalidateEntry)
  also have "\<dots> \<le> nextRequestId (fold invalidateEntry ks (invalidateEntry a cs))"
    by (rule Cons.IH)
  finally show ?case by simp
qed

lemma fold_invalidateEntry_data:
  "get cs k = Some e \<Longrightarrow>
   \<exists>e'. get (fold invalidateEntry ks cs) k = Some e' \<and> data e' = data e"
proof (induction ks arbitrary: cs e)
  case Nil
  then show ?case by simp
next
  case (Cons a ks)
  have "\<exists>e1. get (invalidateEntry a cs) k = Some e1 \<and> data e1 = data e"
    using Cons.prems by (cases "k = a") (simp_all add: get_invalidateEntry)
  then obtain e1 where e1: "get (invalidateEntry a cs) k = Some e1" and d: "data e1 = data e"
    by blast
  from Cons.IH [OF e1] d show ?case by simp
qed

text \<open>
  The invalidation of the keys of a list without repetitions, one of which is \<open>k\<close>:
  the entry of \<open>k\<close> is the one its own invalidation made, with the request identity
  \<open>rid\<close> that was the next one when it was made.
\<close>

lemma fold_invalidateEntry_member:
  assumes "get cs k = Some e" and "k \<in> set ks" and "distinct ks"
  shows "\<exists>rid. nextRequestId cs \<le> rid
          \<and> get (fold invalidateEntry ks cs) k
              = Some (if observerCount e > 0
                      then fetching rid (e\<lparr>invalidated := True\<rparr>)
                      else e\<lparr>invalidated := True\<rparr>)
          \<and> fetchCount (fold invalidateEntry ks cs) k
              = fetchCount cs k + (if observerCount e > 0 then 1 else 0)
          \<and> inFlight (fold invalidateEntry ks cs) k
              = (if observerCount e > 0 then [rid] else inFlight cs k)"
proof -
  from split_list [OF assms(2)] obtain ks1 ks2 where ks: "ks = ks1 @ k # ks2"
    by blast
  with assms(3) have n1: "k \<notin> set ks1" and n2: "k \<notin> set ks2"
    by auto
  let ?cs1 = "fold invalidateEntry ks1 cs"
  let ?cs2 = "invalidateEntry k ?cs1"
  have f: "fold invalidateEntry ks cs = fold invalidateEntry ks2 ?cs2"
    by (simp add: ks)
  have g1: "get ?cs1 k = Some e"
    using assms(1) by (simp add: fold_invalidateEntry_get [OF n1])
  have c1: "fetchCount ?cs1 k = fetchCount cs k"
    by (rule fold_invalidateEntry_fetchCount [OF n1])
  have i1: "inFlight ?cs1 k = inFlight cs k"
    by (rule fold_invalidateEntry_inFlight [OF n1])
  have g2: "get ?cs2 k
              = Some (if observerCount e > 0
                      then fetching (nextRequestId ?cs1) (e\<lparr>invalidated := True\<rparr>)
                      else e\<lparr>invalidated := True\<rparr>)"
    using g1 by (simp add: get_invalidateEntry)
  have c2: "fetchCount ?cs2 k = fetchCount cs k + (if observerCount e > 0 then 1 else 0)"
    using g1 c1 by (simp add: fetchCount_invalidateEntry)
  have i2: "inFlight ?cs2 k = (if observerCount e > 0 then [nextRequestId ?cs1] else inFlight cs k)"
    using g1 i1 by (simp add: inFlight_invalidateEntry)
  show ?thesis
  proof (intro exI [of _ "nextRequestId ?cs1"] conjI)
    show "nextRequestId cs \<le> nextRequestId ?cs1"
      by (rule fold_invalidateEntry_nextRequestId)
    show "get (fold invalidateEntry ks cs) k
              = Some (if observerCount e > 0
                      then fetching (nextRequestId ?cs1) (e\<lparr>invalidated := True\<rparr>)
                      else e\<lparr>invalidated := True\<rparr>)"
      unfolding f using g2 by (simp add: fold_invalidateEntry_get [OF n2])
    show "fetchCount (fold invalidateEntry ks cs) k
              = fetchCount cs k + (if observerCount e > 0 then 1 else 0)"
      unfolding f using c2 by (simp add: fold_invalidateEntry_fetchCount [OF n2])
    show "inFlight (fold invalidateEntry ks cs) k
              = (if observerCount e > 0 then [nextRequestId ?cs1] else inFlight cs k)"
      unfolding f using i2 by (simp add: fold_invalidateEntry_inFlight [OF n2])
  qed
qed

text \<open>
  C6. Invalidating a key prefix invalidates every cached key of which it is a prefix:
  the entry of every key the prefix matches is marked invalidated, and is stale from
  then on at any time; its data is kept. When the entry has an active subscriber it is
  refetched as a result, whether or not a fetch was in flight for it: the invalidation
  issues exactly one fetch for the key, with a request identity that did not exist
  before; the entry is \<open>loading\<close> with that request, and it is the one fetch in flight
  for the key. For an entry without a subscriber no fetch is issued. The entries of the
  keys the prefix does not match are left as they were.
\<close>

theorem invalidate_prefix:
  assumes "get cs k = Some e" and "isPrefixOf p k"
  shows "\<exists>e'. get (invalidate p cs) k = Some e' \<and> invalidated e' \<and> isStale now e'
           \<and> data e' = data e
           \<and> (observerCount e > 0 \<longrightarrow>
                fetchCount (invalidate p cs) k = Suc (fetchCount cs k)
                \<and> (\<exists>rid. nextRequestId cs \<le> rid \<and> inFlightRequestId e' = Some rid
                      \<and> status e' = Loading \<and> inFlight (invalidate p cs) k = [rid]))
           \<and> (observerCount e = 0 \<longrightarrow> fetchCount (invalidate p cs) k = fetchCount cs k)
           \<and> (\<forall>k'. \<not> isPrefixOf p k' \<longrightarrow> get (invalidate p cs) k' = get cs k')"
proof -
  have mem: "k \<in> set (findByPrefix cs p)"
    using assms get_in_keys [OF assms(1)] by (simp add: findByPrefix_def)
  have dis: "distinct (findByPrefix cs p)"
    by (simp add: findByPrefix_def)
  from fold_invalidateEntry_member [OF assms(1) mem dis]
  obtain rid where n: "nextRequestId cs \<le> rid"
    and g: "get (invalidate p cs) k
              = Some (if observerCount e > 0
                      then fetching rid (e\<lparr>invalidated := True\<rparr>)
                      else e\<lparr>invalidated := True\<rparr>)"
    and c: "fetchCount (invalidate p cs) k
              = fetchCount cs k + (if observerCount e > 0 then 1 else 0)"
    and i: "inFlight (invalidate p cs) k
              = (if observerCount e > 0 then [rid] else inFlight cs k)"
    unfolding invalidate_def by blast
  let ?e' = "if observerCount e > 0
             then fetching rid (e\<lparr>invalidated := True\<rparr>)
             else e\<lparr>invalidated := True\<rparr>"
  have iv: "invalidated ?e'" by simp
  have st: "isStale now ?e'"
    using iv by (simp only: isStale_def) simp
  have d: "data ?e' = data e" by simp
  have fl: "observerCount e > 0 \<longrightarrow>
                fetchCount (invalidate p cs) k = Suc (fetchCount cs k)
                \<and> (\<exists>rid. nextRequestId cs \<le> rid \<and> inFlightRequestId ?e' = Some rid
                      \<and> status ?e' = Loading \<and> inFlight (invalidate p cs) k = [rid])"
    using n c i by auto
  have cnt: "observerCount e = 0 \<longrightarrow> fetchCount (invalidate p cs) k = fetchCount cs k"
    using c by simp
  have fr: "\<forall>k'. \<not> isPrefixOf p k' \<longrightarrow> get (invalidate p cs) k' = get cs k'"
    by (simp add: invalidate_def findByPrefix_def fold_invalidateEntry_get)
  show ?thesis
  proof (intro exI [of _ ?e'] conjI)
    show "get (invalidate p cs) k = Some ?e'" by (rule g)
    show "invalidated ?e'" by (rule iv)
    show "isStale now ?e'" by (rule st)
    show "data ?e' = data e" by (rule d)
    show "observerCount e > 0 \<longrightarrow>
                fetchCount (invalidate p cs) k = Suc (fetchCount cs k)
                \<and> (\<exists>rid. nextRequestId cs \<le> rid \<and> inFlightRequestId ?e' = Some rid
                      \<and> status ?e' = Loading \<and> inFlight (invalidate p cs) k = [rid])"
      by (rule fl)
    show "observerCount e = 0 \<longrightarrow> fetchCount (invalidate p cs) k = fetchCount cs k"
      by (rule cnt)
    show "\<forall>k'. \<not> isPrefixOf p k' \<longrightarrow> get (invalidate p cs) k' = get cs k'" by (rule fr)
  qed
qed

lemma subscribers_subscribe: "subscribers (subscribe k s cs) = subscribers cs @ [(k, s)]"
  by (simp add: subscribe_def Let_def)

lemma subscribers_create: "subscribers create = []"
  by (simp add: create_def)

theorem invalidate_prefix_witness:
  "isPrefixOf [Str ''users''] [Str ''users'', Nmb 7, Str ''posts'']
   \<and> map_option (\<lambda>e. (observerCount e, data e, inFlightRequestId e))
        (get ex_observed_refetching [Str ''users'', Nmb 7, Str ''posts''])
       = Some (1, Some 42, Some 1)
   \<and> fetchCount ex_observed_refetching [Str ''users'', Nmb 7, Str ''posts''] = 2
   \<and> (\<exists>e'. get (invalidate [Str ''users''] ex_observed_refetching)
             [Str ''users'', Nmb 7, Str ''posts''] = Some e'
          \<and> invalidated e' \<and> isStale 200001 e' \<and> data e' = Some 42
          \<and> inFlightRequestId e' = Some 2)
   \<and> fetchCount (invalidate [Str ''users''] ex_observed_refetching)
        [Str ''users'', Nmb 7, Str ''posts''] = 3
   \<and> inFlight (invalidate [Str ''users''] ex_observed_refetching)
        [Str ''users'', Nmb 7, Str ''posts''] = [2]
   \<and> map_option (\<lambda>e. (data e, invalidated e, inFlightRequestId e))
        (get (complete 1 (\<lambda>i. Ok 7) 200005 (invalidate [Str ''users''] ex_observed_refetching))
           [Str ''users'', Nmb 7, Str ''posts''])
       = Some (Some 42, True, Some 2)
   \<and> map_option (\<lambda>e. (data e, invalidated e, inFlightRequestId e))
        (get (complete 2 (\<lambda>i. Ok 8) 200006 (invalidate [Str ''users''] ex_observed_refetching))
           [Str ''users'', Nmb 7, Str ''posts''])
       = Some (Some 8, False, None)
   \<and> map (\<lambda>(c, r). (c, r_data r))
        (deliveries ex_observed_refetching
          (complete 2 (\<lambda>i. Ok 8) 200006 (invalidate [Str ''users''] ex_observed_refetching)))
       = [(2, Some 8)]
   \<and> map_option (\<lambda>e. (isStale 1 e, inFlightRequestId e))
        (get ex_observed [Str ''users'', Nmb 7, Str ''posts''])
       = Some (False, None)
   \<and> map_option (\<lambda>e. (isStale 1 e, data e, inFlightRequestId e))
        (get (invalidate [Str ''users''] ex_observed) [Str ''users'', Nmb 7, Str ''posts''])
       = Some (True, Some 42, Some 1)
   \<and> fetchCount (invalidate [Str ''users''] ex_observed) [Str ''users'', Nmb 7, Str ''posts''] = 2"
proof -
  let ?k = "[Str ''users'', Nmb 7, Str ''posts'']"
  let ?cs = "ex_observed_refetching"
  have oc: "map_option (\<lambda>e. (observerCount e, data e, inFlightRequestId e)) (get ?cs ?k)
              = Some (1, Some 42, Some 1)" by code_simp
  have c: "fetchCount ?cs ?k = 2" by code_simp
  have i: "inFlight (invalidate [Str ''users''] ?cs) ?k = [2]" by code_simp
  have p: "isPrefixOf [Str ''users''] ?k" by simp
  have s1: "map_option (\<lambda>e. (data e, invalidated e, inFlightRequestId e))
        (get (complete 1 (\<lambda>i. Ok 7) 200005 (invalidate [Str ''users''] ?cs)) ?k)
       = Some (Some 42, True, Some 2)" by code_simp
  have s2: "map_option (\<lambda>e. (data e, invalidated e, inFlightRequestId e))
        (get (complete 2 (\<lambda>i. Ok 8) 200006 (invalidate [Str ''users''] ?cs)) ?k)
       = Some (Some 8, False, None)" by code_simp
  have s3: "map (\<lambda>(c, r). (c, r_data r))
        (deliveries ?cs (complete 2 (\<lambda>i. Ok 8) 200006 (invalidate [Str ''users''] ?cs)))
       = [(2, Some 8)]" by code_simp
  have o1: "map_option (\<lambda>e. (isStale 1 e, inFlightRequestId e)) (get ex_observed ?k)
              = Some (False, None)" by code_simp
  have o3: "map_option (\<lambda>e. (isStale 1 e, data e, inFlightRequestId e))
              (get (invalidate [Str ''users''] ex_observed) ?k) = Some (True, Some 42, Some 1)"
    by code_simp
  have o4: "fetchCount (invalidate [Str ''users''] ex_observed) ?k = 2" by code_simp
  from oc obtain e where g: "get ?cs ?k = Some e" by auto
  have e: "observerCount e = 1" "data e = Some 42"
    using oc g by simp_all
  from invalidate_prefix [OF g p, of 200001] e c
  obtain e' where g': "get (invalidate [Str ''users''] ?cs) ?k = Some e'"
    and iv: "invalidated e'" "isStale 200001 e'" "data e' = Some 42"
    and fc: "fetchCount (invalidate [Str ''users''] ?cs) ?k = 3"
    and r: "\<exists>rid. inFlightRequestId e' = Some rid
              \<and> inFlight (invalidate [Str ''users''] ?cs) ?k = [rid]"
    by auto
  from r i have "inFlightRequestId e' = Some 2"
    by auto
  with g' iv have "\<exists>e'. get (invalidate [Str ''users''] ?cs) ?k = Some e'
          \<and> invalidated e' \<and> isStale 200001 e' \<and> data e' = Some 42
          \<and> inFlightRequestId e' = Some 2"
    by blast
  then show ?thesis
    using p oc c fc i o1 o3 o4 s1 s2 s3 by simp
qed

section \<open>Selector subscriptions\<close>





section \<open>The retry loop\<close>

lemma attempts_count: "Suc i \<le> snd (attempts n f i) \<and> snd (attempts n f i) \<le> Suc (i + n)"
  by (induction n f i rule: attempts.induct) (auto split: attempt.splits)

lemma attempts_first_ok: "f i = Ok v \<Longrightarrow> attempts n f i = (Ok v, Suc i)"
  by (cases n) simp_all

lemma attempts_failed:
  "fst (attempts n f i) = NetworkError err \<Longrightarrow>
     snd (attempts n f i) = Suc (i + n) \<and> f (i + n) = NetworkError err
     \<and> (\<forall>j. i \<le> j \<and> j \<le> i + n \<longrightarrow> (\<exists>e. f j = NetworkError e))"
proof (induction n f i rule: attempts.induct)
  case (1 fetcher i)
  then show ?case by auto
next
  case (2 n fetcher i)
  show ?case
  proof (cases "fetcher i")
    case (Ok v)
    with "2.prems" show ?thesis by simp
  next
    case (NetworkError e)
    with "2.prems" have f: "fst (attempts n fetcher (Suc i)) = NetworkError err" by simp
    from "2.IH" [OF NetworkError f]
    have a: "snd (attempts n fetcher (Suc i)) = Suc (Suc i + n)"
      and b: "fetcher (Suc i + n) = NetworkError err"
      and c: "\<forall>j. Suc i \<le> j \<and> j \<le> Suc i + n \<longrightarrow> (\<exists>e. fetcher j = NetworkError e)"
      by blast+
    have "\<exists>e. fetcher j = NetworkError e" if "i \<le> j" "j \<le> i + Suc n" for j
    proof (cases "j = i")
      case True
      then show ?thesis using NetworkError by simp
    next
      case False
      with that have "Suc i \<le> j \<and> j \<le> Suc i + n" by simp
      with c show ?thesis by blast
    qed
    then show ?thesis
      using NetworkError a b by simp
  qed
qed

lemma attempts_succeeded:
  "fst (attempts n f i) = Ok v \<Longrightarrow>
     f (snd (attempts n f i) - 1) = Ok v
     \<and> (\<forall>j. i \<le> j \<and> j < snd (attempts n f i) - 1 \<longrightarrow> (\<exists>e. f j = NetworkError e))"
proof (induction n f i rule: attempts.induct)
  case (1 fetcher i)
  then show ?case by auto
next
  case (2 n fetcher i)
  show ?case
  proof (cases "fetcher i")
    case (Ok w)
    with "2.prems" show ?thesis by auto
  next
    case (NetworkError e)
    with "2.prems" have f: "fst (attempts n fetcher (Suc i)) = Ok v" by simp
    from "2.IH" [OF NetworkError f]
    have a: "fetcher (snd (attempts n fetcher (Suc i)) - 1) = Ok v"
      and c: "\<forall>j. Suc i \<le> j \<and> j < snd (attempts n fetcher (Suc i)) - 1
                \<longrightarrow> (\<exists>e. fetcher j = NetworkError e)"
      by blast+
    have "\<exists>e. fetcher j = NetworkError e"
      if "i \<le> j" "j < snd (attempts n fetcher (Suc i)) - 1" for j
    proof (cases "j = i")
      case True
      then show ?thesis using NetworkError by simp
    next
      case False
      with that have "Suc i \<le> j \<and> j < snd (attempts n fetcher (Suc i)) - 1" by simp
      with c show ?thesis by blast
    qed
    then show ?thesis
      using NetworkError a by simp
  qed
qed

lemma attempts_all_failed:
  "(\<forall>j. i \<le> j \<and> j \<le> i + n \<longrightarrow> (\<exists>e. f j = NetworkError e)) \<Longrightarrow>
     \<exists>err. fst (attempts n f i) = NetworkError err"
proof (induction n f i rule: attempts.induct)
  case (1 fetcher i)
  then show ?case by simp
next
  case (2 n fetcher i)
  from "2.prems" obtain e where e: "fetcher i = NetworkError e"
    by (meson le_add1 order_refl)
  have "\<forall>j. Suc i \<le> j \<and> j \<le> Suc i + n \<longrightarrow> (\<exists>e. fetcher j = NetworkError e)"
    using "2.prems" by simp
  from "2.IH" [OF e this] show ?case using e by simp
qed

section \<open>Completion of a fetch\<close>

lemma complete_unknown: "\<not> (\<exists>k. runs cs rid k) \<Longrightarrow> complete rid f now cs = cs"
  by (auto simp: complete_def runs_def split: option.splits)

lemma get_complete:
  assumes "runs cs rid k"
  shows "get (complete rid f now cs) k' =
     (if k' = k then Some (settled (fst (attempts (retryCount cs) f 0)) now (entryOf cs k))
      else get cs k')"
  using assms
  by (auto simp: complete_def runs_def Let_def get_upsert split: prod.splits)

lemma calls_complete:
  assumes "runs cs rid k"
  shows "calls (complete rid f now cs)
           = calls cs @ replicate (snd (attempts (retryCount cs) f 0)) (k, rid)"
  using assms
  by (auto simp: complete_def runs_def Let_def split: prod.splits)

lemma issued_complete: "issued (complete rid f now cs) = issued cs"
  by (auto simp: complete_def Let_def split: prod.splits option.splits)

lemma running_complete:
  assumes "runs cs rid k"
  shows "running (complete rid f now cs) = removeAll (k, rid) (running cs)"
  using assms
  by (auto simp: complete_def runs_def Let_def split: prod.splits)

lemma notifications_complete:
  assumes "runs cs rid k"
  shows "notifications (complete rid f now cs)
           = notifications cs @ notify (subscribers cs) k (entryOf cs k)
               (settled (fst (attempts (retryCount cs) f 0)) now (entryOf cs k))"
  using assms
  by (auto simp: complete_def runs_def Let_def notifications_upsert split: prod.splits)

lemma delivered_complete:
  assumes "runs cs rid k"
  shows "delivered (complete rid f now cs)
           = delivered cs @
               map (\<lambda>(r, c). (c, view (settled (fst (attempts (retryCount cs) f 0)) now
                                         (entryOf cs k))))
                 (filter (\<lambda>(r, c). r = rid) (waiting cs))"
  using assms
  by (auto simp: complete_def runs_def Let_def entryOf_upsert split: prod.splits)

section \<open>Query calls\<close>

lemma entryOf_patched:
  "entryOf (upsert k (\<lambda>e. e\<lparr>staleAfterMs := opt_staleAfterMs opts,
                               retentionMs := opt_retentionMs opts\<rparr>) cs) k
     = found cs k opts"
  by (simp add: entryOf_upsert found_def)

lemma get_patched:
  "get (upsert k (\<lambda>e. e\<lparr>staleAfterMs := opt_staleAfterMs opts,
                           retentionMs := opt_retentionMs opts\<rparr>) cs) k'
     = (if k' = k then Some (found cs k opts) else get cs k')"
  by (simp add: get_upsert found_def)

lemma get_query:
  "get (query k opts now c cs) k' =
     (if k' = k
      then Some (if needsFetch cs k opts now
                 then fetching (nextRequestId cs) (found cs k opts)
                 else found cs k opts)
      else get cs k')"
  by (auto simp: query_def Let_def entryOf_patched needsFetch_def get_startFetch get_patched
        split: option.splits)

lemma issued_query:
  "issued (query k opts now c cs) =
     (if needsFetch cs k opts now then issued cs @ [(k, nextRequestId cs)] else issued cs)"
  by (auto simp: query_def Let_def entryOf_patched needsFetch_def issued_startFetch get_patched
        split: option.splits)

lemma running_query:
  "running (query k opts now c cs) =
     (if needsFetch cs k opts now then (k, nextRequestId cs) # running cs else running cs)"
  by (auto simp: query_def Let_def entryOf_patched needsFetch_def running_startFetch get_patched
        split: option.splits)

lemma waiting_query:
  "waiting (query k opts now c cs) =
     (if needsFetch cs k opts now then waiting cs @ [(nextRequestId cs, c)]
      else case inFlightRequestId (found cs k opts) of
             None \<Rightarrow> waiting cs
           | Some rid \<Rightarrow> waiting cs @ [(rid, c)])"
  by (auto simp: query_def Let_def entryOf_patched needsFetch_def waiting_attach get_startFetch
        get_patched split: option.splits)

lemma delivered_query:
  "delivered (query k opts now c cs) =
     (if needsFetch cs k opts now \<or> inFlightRequestId (found cs k opts) \<noteq> None then delivered cs
      else delivered cs @ [(c, view (found cs k opts))])"
  by (auto simp: query_def Let_def entryOf_patched needsFetch_def split: option.splits)

lemma query_frame [simp]:
  "retryCount (query k opts now c cs) = retryCount cs"
  "calls (query k opts now c cs) = calls cs"
  "subscribers (query k opts now c cs) = subscribers cs"
  by (auto simp: query_def Let_def split: option.splits)

lemma runs_query:
  "needsFetch cs k opts now \<Longrightarrow> runs (query k opts now c cs) (nextRequestId cs) k"
  by (simp add: runs_def running_query)

section \<open>Retained data\<close>

lemma found_Some:
  "get cs k = Some e \<Longrightarrow>
   found cs k opts = e\<lparr>staleAfterMs := opt_staleAfterMs opts, retentionMs := opt_retentionMs opts\<rparr>"
  by (simp add: found_def entryOf_Some)

lemma isStale_patched:
  "isStale now (e\<lparr>staleAfterMs := a, retentionMs := b\<rparr>) = isStale now (e\<lparr>staleAfterMs := a\<rparr>)"
  by (simp add: isStale_def split: option.splits)

lemma query_keeps_data:
  assumes "get cs k = Some e"
  shows "\<exists>e'. get (query k0 opts now c cs) k = Some e' \<and> data e' = data e"
proof (cases "k0 = k")
  case True
  then show ?thesis using assms by (simp add: get_query found_Some)
next
  case False
  then show ?thesis using assms by (simp add: get_query)
qed

lemma failed_keeps_data:
  assumes "get cs k = Some e"
    and "fst (attempts (retryCount cs) f 0) = NetworkError err"
  shows "\<exists>e'. get (complete rid f now cs) k = Some e' \<and> data e' = data e"
proof (cases "\<exists>k0. runs cs rid k0")
  case True
  then obtain k0 where r: "runs cs rid k0" by blast
  show ?thesis
  proof (cases "k0 = k")
    case True
    then show ?thesis
      using assms r by (simp add: get_complete [OF r] entryOf_Some settled_def)
  next
    case False
    then show ?thesis using assms by (simp add: get_complete [OF r])
  qed
next
  case False
  then show ?thesis using assms by (simp add: complete_unknown)
qed

lemma invalidate_keeps_data:
  assumes "get cs k = Some e"
  shows "\<exists>e'. get (invalidate p cs) k = Some e' \<and> data e' = data e"
  using fold_invalidateEntry_data [OF assms, of "findByPrefix cs p"]
  by (simp add: invalidate_def)

lemma subscribe_keeps_data:
  assumes "get cs k = Some e"
  shows "\<exists>e'. get (subscribe k0 s cs) k = Some e' \<and> data e' = data e"
  using assms by (auto simp: subscribe_def Let_def get_upsert entryOf_Some)

lemma apply_op_keeps_data:
  assumes "get cs k = Some e" and "\<not> writesData op cs"
  shows "\<exists>e'. get (apply_op op cs) k = Some e' \<and> data e' = data e"
proof (cases op)
  case (Query k0 opts now c)
  then show ?thesis using query_keeps_data [OF assms(1)] by simp
next
  case (Complete rid f now)
  with assms(2) obtain err where "fst (attempts (retryCount cs) f 0) = NetworkError err"
    by (auto split: attempt.splits)
  from failed_keeps_data [OF assms(1) this] Complete show ?thesis by simp
next
  case (Invalidate p)
  then show ?thesis using invalidate_keeps_data [OF assms(1)] by simp
next
  case (Subscribe k0 s)
  then show ?thesis using subscribe_keeps_data [OF assms(1)] by simp
next
  case (SetSnapshot k0 f)
  then show ?thesis using assms(2) by simp
next
  case (Sweep now)
  then show ?thesis using assms(2) by simp
qed

text \<open>
  C7. When an entry in status \<open>success\<close> or \<open>error\<close> with no fetch in flight is found
  stale by a query call (stale by the \<open>staleAfterMs\<close> of the call), it goes to
  \<open>loading\<close> with a new request in flight and its data is unchanged. When the fetch of
  a running request fails for good, the entry goes to \<open>error\<close> with the error, and its
  data is unchanged. No operation other than a direct write, the completion of a
  successful fetch or a sweep of the garbage collector changes the data of an entry.
\<close>

theorem refetch_retains_data:
  assumes "get cs k = Some e"
  shows "((status e = Success \<or> status e = Error) \<and> inFlightRequestId e = None
            \<and> isStale now (e\<lparr>staleAfterMs := opt_staleAfterMs opts\<rparr>)
           \<longrightarrow> (\<exists>e'. get (query k opts now c cs) k = Some e' \<and> status e' = Loading
                     \<and> inFlightRequestId e' = Some (nextRequestId cs) \<and> data e' = data e))
       \<and> (runs cs rid k \<and> fst (attempts (retryCount cs) f 0) = NetworkError err
           \<longrightarrow> (\<exists>e'. get (complete rid f now' cs) k = Some e' \<and> status e' = Error
                     \<and> error e' = Some err \<and> data e' = data e))
       \<and> (\<not> writesData op cs \<longrightarrow> (\<exists>e'. get (apply_op op cs) k = Some e' \<and> data e' = data e))"
proof (intro conjI impI)
  assume a: "(status e = Success \<or> status e = Error) \<and> inFlightRequestId e = None
               \<and> isStale now (e\<lparr>staleAfterMs := opt_staleAfterMs opts\<rparr>)"
  then have "needsFetch cs k opts now"
    using assms by (simp add: needsFetch_def found_Some isStale_patched)
  then show "\<exists>e'. get (query k opts now c cs) k = Some e' \<and> status e' = Loading
                     \<and> inFlightRequestId e' = Some (nextRequestId cs) \<and> data e' = data e"
    using assms by (simp add: get_query found_Some)
next
  assume "runs cs rid k \<and> fst (attempts (retryCount cs) f 0) = NetworkError err"
  then have r: "runs cs rid k" and a: "fst (attempts (retryCount cs) f 0) = NetworkError err"
    by simp_all
  show "\<exists>e'. get (complete rid f now' cs) k = Some e' \<and> status e' = Error
                     \<and> error e' = Some err \<and> data e' = data e"
    using assms a by (simp add: get_complete [OF r] entryOf_Some settled_def)
next
  assume "\<not> writesData op cs"
  with assms show "\<exists>e'. get (apply_op op cs) k = Some e' \<and> data e' = data e"
    by (rule apply_op_keeps_data)
qed

theorem refetch_retains_data_witness:
  "map_option status (get ex_loaded CACHE_KEY_TODOS) = Some Success
   \<and> map_option data (get ex_loaded CACHE_KEY_TODOS) = Some (Some 42)
   \<and> map_option (isStale 200000) (get ex_loaded CACHE_KEY_TODOS) = Some True
   \<and> (\<exists>e'. get (query CACHE_KEY_TODOS useTodos_options 200000 2 ex_loaded) CACHE_KEY_TODOS = Some e'
          \<and> status e' = Loading \<and> data e' = Some 42)
   \<and> runs ex_reloading 1 CACHE_KEY_TODOS
   \<and> map_option data (get ex_reloading CACHE_KEY_TODOS) = Some (Some 42)
   \<and> (\<exists>e'. get (complete 1 (\<lambda>i. NetworkError ''down'') 200009 ex_reloading) CACHE_KEY_TODOS
            = Some e'
          \<and> status e' = Error \<and> error e' = Some ''down'' \<and> data e' = Some 42)"
proof -
  have st: "map_option status (get ex_loaded CACHE_KEY_TODOS) = Some Success" by code_simp
  have da: "map_option data (get ex_loaded CACHE_KEY_TODOS) = Some (Some 42)" by code_simp
  have fl: "map_option inFlightRequestId (get ex_loaded CACHE_KEY_TODOS) = Some None" by code_simp
  have sl: "map_option (isStale 200000) (get ex_loaded CACHE_KEY_TODOS) = Some True" by code_simp
  have sp: "map_option (\<lambda>e. isStale 200000 (e\<lparr>staleAfterMs := opt_staleAfterMs useTodos_options\<rparr>))
              (get ex_loaded CACHE_KEY_TODOS) = Some True" by code_simp
  have d0: "map_option data (get ex_reloading CACHE_KEY_TODOS) = Some (Some 42)" by code_simp
  have r: "runs ex_reloading 1 CACHE_KEY_TODOS" by code_simp
  have a: "fst (attempts (retryCount ex_reloading) (\<lambda>i. NetworkError ''down'' :: nat attempt) 0)
             = NetworkError ''down''" by code_simp
  from st obtain e where g: "get ex_loaded CACHE_KEY_TODOS = Some e" by auto
  from d0 obtain e0 where g0: "get ex_reloading CACHE_KEY_TODOS = Some e0" by auto
  have h1: "(status e = Success \<or> status e = Error) \<and> inFlightRequestId e = None
              \<and> isStale 200000 (e\<lparr>staleAfterMs := opt_staleAfterMs useTodos_options\<rparr>)"
    using st fl sp g by simp
  have "\<exists>e'. get (query CACHE_KEY_TODOS useTodos_options 200000 2 ex_loaded) CACHE_KEY_TODOS = Some e'
          \<and> status e' = Loading \<and> inFlightRequestId e' = Some (nextRequestId ex_loaded)
          \<and> data e' = data e"
    using refetch_retains_data [OF g, of 200000 useTodos_options 2 0 "\<lambda>i. Ok 0" "''x''" 0
      "Invalidate []"] h1
    by blast
  then have 1: "\<exists>e'. get (query CACHE_KEY_TODOS useTodos_options 200000 2 ex_loaded) CACHE_KEY_TODOS = Some e'
          \<and> status e' = Loading \<and> data e' = Some 42"
    using da g by auto
  have "\<exists>e'. get (complete 1 (\<lambda>i. NetworkError ''down'') 200009 ex_reloading) CACHE_KEY_TODOS
            = Some e'
          \<and> status e' = Error \<and> error e' = Some ''down'' \<and> data e' = data e0"
    using refetch_retains_data [OF g0, of 0 useTodos_options 2 1 "\<lambda>i. NetworkError ''down''"
      "''down''" 200009 "Invalidate []"] r a
    by blast
  then have 2: "\<exists>e'. get (complete 1 (\<lambda>i. NetworkError ''down'') 200009 ex_reloading) CACHE_KEY_TODOS
            = Some e'
          \<and> status e' = Error \<and> error e' = Some ''down'' \<and> data e' = Some 42"
    using d0 g0 by auto
  show ?thesis
    using 1 2 r st da sl d0 by simp
qed

section \<open>The retry policy\<close>

lemma status_settled:
  "status (settled outcome now e) = (case outcome of Ok v \<Rightarrow> Success | NetworkError err \<Rightarrow> Error)"
  by (simp add: settled_def split: attempt.splits)

lemma attempts_error_iff:
  "(\<exists>err. fst (attempts n f 0) = NetworkError err) \<longleftrightarrow> (\<forall>j \<le> n. \<exists>err. f j = NetworkError err)"
proof
  assume "\<exists>err. fst (attempts n f 0) = NetworkError err"
  then obtain err where "fst (attempts n f 0) = NetworkError err" by blast
  from attempts_failed [OF this] show "\<forall>j \<le> n. \<exists>err. f j = NetworkError err" by simp
next
  assume "\<forall>j \<le> n. \<exists>err. f j = NetworkError err"
  then have "\<forall>j. 0 \<le> j \<and> j \<le> 0 + n \<longrightarrow> (\<exists>e. f j = NetworkError e)" by simp
  from attempts_all_failed [OF this] show "\<exists>err. fst (attempts n f 0) = NetworkError err" .
qed

text \<open>
  C5. The fetch of a running request makes between one and \<open>retryCount + 1\<close> network
  calls, all with the identity of the request: the first attempt and up to \<open>retryCount\<close>
  retries. Its entry ends in \<open>error\<close> iff the first attempt and all \<open>retryCount\<close> retries
  failed, and then exactly \<open>retryCount + 1\<close> calls were made and the error of the last
  one is recorded; otherwise it ends in \<open>success\<close> with the data of the attempt that
  succeeded. Whatever the network answers, the completion yields an entry in one of
  these two statuses with no request in flight; the only notifications it sends carry
  that final status, and every plain subscriber of the key receives one. A new cache
  instance has a retry count of 3.
\<close>

theorem retry_policy:
  assumes "runs cs rid k"
  shows "\<exists>n. calls (complete rid f now cs) = calls cs @ replicate n (k, rid)
           \<and> 1 \<le> n \<and> n \<le> Suc (retryCount cs)
           \<and> get (complete rid f now cs) k = Some (entryOf (complete rid f now cs) k)
           \<and> (status (entryOf (complete rid f now cs) k) = Error
                \<longleftrightarrow> (\<forall>j \<le> retryCount cs. \<exists>err. f j = NetworkError err))
           \<and> (status (entryOf (complete rid f now cs) k) = Error
                \<longrightarrow> n = Suc (retryCount cs)
                    \<and> (\<exists>err. f (retryCount cs) = NetworkError err
                          \<and> error (entryOf (complete rid f now cs) k) = Some err))
           \<and> (status (entryOf (complete rid f now cs) k) \<noteq> Error
                \<longrightarrow> status (entryOf (complete rid f now cs) k) = Success
                    \<and> (\<exists>v. f (n - 1) = Ok v
                          \<and> data (entryOf (complete rid f now cs) k) = Some v))
           \<and> inFlightRequestId (entryOf (complete rid f now cs) k) = None
           \<and> (\<forall>x \<in> set (drop (length (notifications cs)) (notifications (complete rid f now cs))).
                 snd x = (k, status (entryOf (complete rid f now cs) k)))
           \<and> (\<forall>l. (k, Plain l) \<in> set (subscribers cs) \<longrightarrow>
                 (l, k, status (entryOf (complete rid f now cs) k))
                   \<in> set (notifications (complete rid f now cs)))
           \<and> retryCount (create :: ('a, 'b) core) = 3"
proof -
  let ?a = "attempts (retryCount cs) f 0"
  let ?cs' = "complete rid f now cs"
  let ?e' = "settled (fst ?a) now (entryOf cs k)"
  have g: "get ?cs' k = Some ?e'"
    by (simp add: get_complete [OF assms])
  then have eo: "entryOf ?cs' k = ?e'"
    by (rule entryOf_Some)
  have c: "calls ?cs' = calls cs @ replicate (snd ?a) (k, rid)"
    by (rule calls_complete [OF assms])
  have n: "1 \<le> snd ?a \<and> snd ?a \<le> Suc (retryCount cs)"
    using attempts_count [of 0 "retryCount cs" f] by simp
  have iff: "status ?e' = Error \<longleftrightarrow> (\<forall>j \<le> retryCount cs. \<exists>err. f j = NetworkError err)"
    using attempts_error_iff [of "retryCount cs" f]
    by (auto simp: status_settled split: attempt.splits)
  have err: "status ?e' = Error \<longrightarrow> snd ?a = Suc (retryCount cs)
                \<and> (\<exists>err. f (retryCount cs) = NetworkError err \<and> error ?e' = Some err)"
  proof
    assume "status ?e' = Error"
    then obtain e where e: "fst ?a = NetworkError e"
      by (auto simp: status_settled split: attempt.splits)
    from attempts_failed [OF e] e
    show "snd ?a = Suc (retryCount cs)
            \<and> (\<exists>err. f (retryCount cs) = NetworkError err \<and> error ?e' = Some err)"
      by (simp add: settled_def)
  qed
  have ok: "status ?e' \<noteq> Error \<longrightarrow> status ?e' = Success
                \<and> (\<exists>v. f (snd ?a - 1) = Ok v \<and> data ?e' = Some v)"
  proof
    assume "status ?e' \<noteq> Error"
    then obtain v where v: "fst ?a = Ok v"
      by (auto simp: status_settled split: attempt.splits)
    from attempts_succeeded [OF v] v
    show "status ?e' = Success \<and> (\<exists>v. f (snd ?a - 1) = Ok v \<and> data ?e' = Some v)"
      by (simp add: settled_def)
  qed
  have fl: "inFlightRequestId ?e' = None"
    by (simp add: settled_def split: attempt.splits)
  have nt: "drop (length (notifications cs)) (notifications ?cs')
              = notify (subscribers cs) k (entryOf cs k) ?e'"
    by (simp add: notifications_complete [OF assms])
  have all: "\<forall>x \<in> set (drop (length (notifications cs)) (notifications ?cs')).
                 snd x = (k, status ?e')"
    unfolding nt by (auto simp: notify_def)
  have pl: "\<forall>l. (k, Plain l) \<in> set (subscribers cs) \<longrightarrow> (l, k, status ?e') \<in> set (notifications ?cs')"
  proof (intro allI impI)
    fix l assume "(k, Plain l) \<in> set (subscribers cs)"
    then have "(l, k, status ?e') \<in> set (notify (subscribers cs) k (entryOf cs k) ?e')"
      by (force simp: notify_def image_iff)
    then show "(l, k, status ?e') \<in> set (notifications ?cs')"
      by (simp add: notifications_complete [OF assms])
  qed
  have d: "retryCount (create :: ('a, 'b) core) = 3"
    by (simp add: create_def)
  show ?thesis
    unfolding eo
    using g c n iff err ok fl all pl d by (intro exI [of _ "snd ?a"]) blast
qed

theorem retry_policy_witness:
  "runs ex_loading 0 CACHE_KEY_TODOS
   \<and> retryCount ex_loading = 3
   \<and> calls (complete 0 (\<lambda>i. NetworkError ''down'') 9 ex_loading) = replicate 4 (CACHE_KEY_TODOS, 0)
   \<and> status (entryOf (complete 0 (\<lambda>i. NetworkError ''down'') 9 ex_loading) CACHE_KEY_TODOS) = Error
   \<and> (7, CACHE_KEY_TODOS, Error) \<in> set (notifications (complete 0 (\<lambda>i. NetworkError ''down'') 9 ex_loading))"
proof -
  have r: "runs ex_loading 0 CACHE_KEY_TODOS" by code_simp
  have n: "retryCount ex_loading = 3" by code_simp
  have c: "calls ex_loading = []" by code_simp
  have s: "(CACHE_KEY_TODOS, Plain 7) \<in> set (subscribers ex_loading)"
    by (simp add: ex_loading_def run_def subscribers_subscribe subscribers_create)
  from retry_policy [OF r, of "\<lambda>i. NetworkError ''down''" 9] r n c s show ?thesis
    by auto
qed

section \<open>Selector subscriptions: the claim\<close>



section \<open>One fetch in flight for a key\<close>

lemma filter_key_distinct:
  "distinct (map fst xs) \<Longrightarrow> length (filter (\<lambda>(k', r). k' = k) xs) \<le> 1"
proof (induction xs)
  case Nil
  then show ?case by simp
next
  case (Cons x xs)
  show ?case
  proof (cases "fst x = k")
    case True
    with Cons.prems have "k \<notin> fst ` set xs" by auto
    then have "filter (\<lambda>(k', r). k' = k) xs = []"
      by (force simp: filter_empty_conv)
    with True show ?thesis by (cases x) simp
  next
    case False
    with Cons show ?thesis by (cases x) simp
  qed
qed

lemma consistentI:
  assumes "distinct (map fst (running cs))"
    and "\<And>k r. (k, r) \<in> set (running cs) \<Longrightarrow> \<exists>e. get cs k = Some e \<and> inFlightRequestId e = Some r"
  shows "consistent cs"
  using assms by (auto simp: consistent_def)

lemma consistentD:
  assumes "consistent cs" and "(k, r) \<in> set (running cs)"
  shows "\<exists>e. get cs k = Some e \<and> inFlightRequestId e = Some r"
  using assms by (auto simp: consistent_def)

lemma consistent_distinct: "consistent cs \<Longrightarrow> distinct (map fst (running cs))"
  by (simp add: consistent_def)

lemma consistent_upsert:
  assumes "consistent cs"
    and "inFlightRequestId (patch (entryOf cs k)) = inFlightRequestId (entryOf cs k)"
  shows "consistent (upsert k patch cs)"
proof (rule consistentI)
  show "distinct (map fst (running (upsert k patch cs)))"
    using assms(1) by (simp add: consistent_distinct)
next
  fix k' r assume "(k', r) \<in> set (running (upsert k patch cs))"
  then have "(k', r) \<in> set (running cs)" by simp
  from consistentD [OF assms(1) this]
  obtain e where e: "get cs k' = Some e" "inFlightRequestId e = Some r" by blast
  show "\<exists>e. get (upsert k patch cs) k' = Some e \<and> inFlightRequestId e = Some r"
  proof (cases "k' = k")
    case True
    with e have "entryOf cs k = e" by (simp add: entryOf_Some)
    with assms(2) e True show ?thesis by (simp add: get_upsert)
  next
    case False
    with e show ?thesis by (simp add: get_upsert)
  qed
qed

lemma consistent_startFetch:
  assumes "consistent cs"
  shows "consistent (startFetch k cs)"
proof (cases "\<exists>e. get cs k = Some e \<and> inFlightRequestId e = None")
  case False
  then have "startFetch k cs = cs"
    by (auto simp: startFetch_def split: option.splits)
  with assms show ?thesis by simp
next
  case True
  then obtain e where e: "get cs k = Some e" "inFlightRequestId e = None" by blast
  have nk: "k \<notin> fst ` set (running cs)"
  proof
    assume "k \<in> fst ` set (running cs)"
    then obtain r where "(k, r) \<in> set (running cs)" by auto
    from consistentD [OF assms this] e show False by simp
  qed
  have run: "running (startFetch k cs) = (k, nextRequestId cs) # running cs"
    using e by (simp add: running_startFetch)
  show ?thesis
  proof (rule consistentI)
    show "distinct (map fst (running (startFetch k cs)))"
      using nk assms by (simp add: run consistent_distinct)
  next
    fix k' r assume "(k', r) \<in> set (running (startFetch k cs))"
    then consider "k' = k" "r = nextRequestId cs" | "(k', r) \<in> set (running cs)"
      by (auto simp: run)
    then show "\<exists>e. get (startFetch k cs) k' = Some e \<and> inFlightRequestId e = Some r"
    proof cases
      case 1
      with e show ?thesis by (simp add: get_startFetch)
    next
      case 2
      with nk have "k' \<noteq> k" by force
      with consistentD [OF assms 2] show ?thesis by (simp add: get_startFetch)
    qed
  qed
qed

lemma consistent_attach: "consistent (attach k c cs) = consistent cs"
  by (simp add: consistent_def)

lemma consistent_delivered: "consistent (cs\<lparr>delivered := d\<rparr>) = consistent cs"
  by (simp add: consistent_def)

lemma consistent_subscribers: "consistent (cs\<lparr>subscribers := d\<rparr>) = consistent cs"
  by (simp add: consistent_def)

lemma consistent_query:
  assumes "consistent cs"
  shows "consistent (query k opts now c cs)"
proof -
  have "consistent (upsert k (\<lambda>e. e\<lparr>staleAfterMs := opt_staleAfterMs opts,
                                 retentionMs := opt_retentionMs opts\<rparr>) cs)"
    by (rule consistent_upsert [OF assms]) simp
  then show ?thesis
    by (auto simp: query_def Let_def consistent_attach consistent_startFetch consistent_delivered
          split: option.splits)
qed

lemma runs_running: "runs cs rid k \<Longrightarrow> (k, rid) \<in> set (running cs)"
  by (auto simp: runs_def dest!: map_of_SomeD)

lemma consistent_complete:
  assumes "consistent cs"
  shows "consistent (complete rid f now cs)"
proof (cases "\<exists>k. runs cs rid k")
  case False
  then show ?thesis using assms by (simp add: complete_unknown)
next
  case True
  then obtain k where r: "runs cs rid k" by blast
  have mem: "(k, rid) \<in> set (running cs)" by (rule runs_running [OF r])
  have d: "distinct (map fst (running cs))" by (rule consistent_distinct [OF assms])
  show ?thesis
  proof (rule consistentI)
    show "distinct (map fst (running (complete rid f now cs)))"
      using d by (simp add: running_complete [OF r] removeAll_filter_not_eq distinct_map_filter)
  next
    fix k' r' assume "(k', r') \<in> set (running (complete rid f now cs))"
    then have in': "(k', r') \<in> set (running cs)" and ne: "(k', r') \<noteq> (k, rid)"
      by (simp_all add: running_complete [OF r])
    have "k' \<noteq> k"
    proof
      assume "k' = k"
      with in' mem d have "r' = rid" by (meson eq_key_imp_eq_value)
      with \<open>k' = k\<close> ne show False by simp
    qed
    with consistentD [OF assms in']
    show "\<exists>e. get (complete rid f now cs) k' = Some e \<and> inFlightRequestId e = Some r'"
      by (simp add: get_complete [OF r])
  qed
qed

lemma consistent_refetch:
  assumes "consistent cs"
  shows "consistent (refetch k cs)"
proof (cases "get cs k")
  case None
  then show ?thesis using assms by (simp add: refetch_def)
next
  case (Some e)
  have run: "running (refetch k cs)
               = (k, nextRequestId cs) # filter (\<lambda>(k', r). k' \<noteq> k) (running cs)"
    using Some by (simp add: running_refetch)
  show ?thesis
  proof (rule consistentI)
    have "distinct (map fst (filter (\<lambda>(k', r). k' \<noteq> k) (running cs)))"
      using consistent_distinct [OF assms] by (rule distinct_map_filter)
    moreover have "k \<notin> fst ` set (filter (\<lambda>(k', r). k' \<noteq> k) (running cs))"
      by auto
    ultimately show "distinct (map fst (running (refetch k cs)))"
      by (simp add: run)
  next
    fix k' r assume "(k', r) \<in> set (running (refetch k cs))"
    then consider "k' = k" "r = nextRequestId cs" | "k' \<noteq> k" "(k', r) \<in> set (running cs)"
      by (auto simp: run)
    then show "\<exists>e. get (refetch k cs) k' = Some e \<and> inFlightRequestId e = Some r"
    proof cases
      case 1
      with Some show ?thesis by (simp add: get_refetch)
    next
      case 2
      with consistentD [OF assms 2(2)] show ?thesis by (simp add: get_refetch)
    qed
  qed
qed

lemma consistent_invalidateEntry:
  assumes "consistent cs"
  shows "consistent (invalidateEntry k cs)"
proof (cases "get cs k")
  case None
  then show ?thesis using assms by (simp add: invalidateEntry_def)
next
  case (Some e)
  have "consistent (upsert k (\<lambda>e. e\<lparr>invalidated := True\<rparr>) cs)"
    by (rule consistent_upsert [OF assms]) simp
  then show ?thesis
    using Some by (simp add: invalidateEntry_def Let_def consistent_refetch)
qed

lemma consistent_invalidate:
  assumes "consistent cs"
  shows "consistent (invalidate p cs)"
proof -
  have "consistent (fold invalidateEntry ks cs)" for ks
    using assms by (induction ks arbitrary: cs) (simp_all add: consistent_invalidateEntry)
  then show ?thesis by (simp add: invalidate_def)
qed

lemma consistent_subscribe:
  assumes "consistent cs"
  shows "consistent (subscribe k s cs)"
proof -
  have "consistent (upsert k (\<lambda>e. e\<lparr>observerCount := Suc (observerCount e)\<rparr>) cs)"
    by (rule consistent_upsert [OF assms]) simp
  then show ?thesis
    by (simp add: subscribe_def Let_def consistent_subscribers)
qed

lemma consistent_setSnapshot:
  assumes "consistent cs"
  shows "consistent (setSnapshot k f cs)"
  unfolding setSnapshot_def by (rule consistent_upsert [OF assms]) simp

lemma get_remove: "get (remove k cs) k' = (if k' = k then None else get cs k')"
  by (simp add: get_def remove_def delete_conv')

lemma running_remove [simp]: "running (remove k cs) = running cs"
  by (simp add: remove_def)

lemma fold_remove:
  "get (fold remove ks cs) k = (if k \<in> set ks then None else get cs k)"
  "running (fold remove ks cs) = running cs"
  by (induction ks arbitrary: cs) (auto simp: get_remove)

lemma get_sweep_kept: "\<not> evicted now cs k \<Longrightarrow> get (sweep now cs) k = get cs k"
  by (simp add: sweep_def fold_remove)

lemma running_sweep [simp]: "running (sweep now cs) = running cs"
  by (simp add: sweep_def fold_remove)

lemma consistent_sweep:
  assumes "consistent cs"
  shows "consistent (sweep now cs)"
proof (rule consistentI)
  show "distinct (map fst (running (sweep now cs)))"
    using assms by (simp add: consistent_distinct)
next
  fix k r assume "(k, r) \<in> set (running (sweep now cs))"
  then have m: "(k, r) \<in> set (running cs)" by simp
  from consistentD [OF assms m]
  obtain e where e: "get cs k = Some e" "inFlightRequestId e = Some r" by blast
  then have "\<not> evicted now cs k"
    by (simp add: evicted_def evictable_def)
  with e show "\<exists>e. get (sweep now cs) k = Some e \<and> inFlightRequestId e = Some r"
    by (simp add: get_sweep_kept)
qed

lemma consistent_apply_op:
  assumes "consistent cs"
  shows "consistent (apply_op op cs)"
  using assms
  by (cases op)
    (simp_all add: consistent_query consistent_complete consistent_invalidate
      consistent_subscribe consistent_setSnapshot consistent_sweep)

lemma consistent_run: "consistent cs \<Longrightarrow> consistent (run ops cs)"
  unfolding run_def
  by (induction ops arbitrary: cs) (simp_all add: consistent_apply_op)

lemma consistent_create: "consistent create"
  by (simp add: consistent_def create_def)

lemma inFlight_le_1: "consistent cs \<Longrightarrow> length (inFlight cs k) \<le> 1"
  using filter_key_distinct [OF consistent_distinct, of cs k] by (simp add: inFlight_def)

section \<open>Two query calls\<close>

lemma found_query:
  "needsFetch cs k opts now \<Longrightarrow>
   get (query k opts now c cs) k
     = Some (fetching (nextRequestId cs) (found cs k opts))"
  by (simp add: get_query)

lemma found_fetching:
  "get cs k = Some (fetching rid e) \<Longrightarrow> inFlightRequestId (found cs k opts) = Some rid"
  by (simp add: found_Some)

lemma second_query_in_flight:
  assumes "needsFetch cs k o1 t1"
  shows "issued (query k o2 t2 c2 (query k o1 t1 c1 cs)) = issued cs @ [(k, nextRequestId cs)]"
    and "running (query k o2 t2 c2 (query k o1 t1 c1 cs)) = (k, nextRequestId cs) # running cs"
    and "waiting (query k o2 t2 c2 (query k o1 t1 c1 cs))
           = waiting cs @ [(nextRequestId cs, c1), (nextRequestId cs, c2)]"
    and "delivered (query k o2 t2 c2 (query k o1 t1 c1 cs)) = delivered cs"
proof -
  let ?q = "query k o1 t1 c1 cs"
  have g: "get ?q k = Some (fetching (nextRequestId cs) (found cs k o1))"
    by (rule found_query [OF assms])
  have fo: "inFlightRequestId (found ?q k o2) = Some (nextRequestId cs)"
    by (rule found_fetching [OF g])
  then have nf: "\<not> needsFetch ?q k o2 t2"
    by (simp add: needsFetch_def)
  show "issued (query k o2 t2 c2 ?q) = issued cs @ [(k, nextRequestId cs)]"
    using nf assms by (simp add: issued_query)
  show "running (query k o2 t2 c2 ?q) = (k, nextRequestId cs) # running cs"
    using nf assms by (simp add: running_query)
  show "waiting (query k o2 t2 c2 ?q)
           = waiting cs @ [(nextRequestId cs, c1), (nextRequestId cs, c2)]"
    using nf assms fo by (simp add: waiting_query)
  show "delivered (query k o2 t2 c2 ?q) = delivered cs"
    using nf assms fo by (simp add: delivered_query)
qed

lemma deliveries_append: "deliveries cs (cs'\<lparr>delivered := delivered cs @ xs\<rparr>) = xs"
  by (simp add: deliveries_def)

lemma both_attached:
  assumes "needsFetch cs k o1 t1"
  shows "\<exists>res. (c1, res) \<in> set (deliveries cs (complete (nextRequestId cs) g t3
                     (query k o2 t2 c2 (query k o1 t1 c1 cs))))
             \<and> (c2, res) \<in> set (deliveries cs (complete (nextRequestId cs) g t3
                     (query k o2 t2 c2 (query k o1 t1 c1 cs))))
             \<and> (\<forall>x \<in> set (deliveries cs (complete (nextRequestId cs) g t3
                     (query k o2 t2 c2 (query k o1 t1 c1 cs)))). snd x = res)"
proof -
  let ?q2 = "query k o2 t2 c2 (query k o1 t1 c1 cs)"
  let ?rid = "nextRequestId cs"
  have r: "runs ?q2 ?rid k"
    by (simp add: runs_def second_query_in_flight(2) [OF assms])
  let ?res = "view (settled (fst (attempts (retryCount ?q2) g 0)) t3 (entryOf ?q2 k))"
  have d: "deliveries cs (complete ?rid g t3 ?q2)
             = map (\<lambda>(r, c). (c, ?res)) (filter (\<lambda>(r, c). r = ?rid) (waiting cs))
               @ [(c1, ?res), (c2, ?res)]"
    by (simp add: deliveries_def delivered_complete [OF r] second_query_in_flight [OF assms])
  show ?thesis
    unfolding d by (intro exI [of _ ?res]) auto
qed

lemma view_patched:
  "view (e\<lparr>staleAfterMs := a, retentionMs := b\<rparr>) = view e"
  by (simp add: view_def)

lemma second_query_fresh:
  assumes nf: "needsFetch cs k o1 t1"
    and t: "t1 \<le> t" "t \<le> t2" "t2 - t1 \<le> opt_staleAfterMs o2"
    and ok: "fst (attempts (retryCount cs) f 0) = Ok v"
  shows "issued (query k o2 t2 c2 (complete (nextRequestId cs) f t (query k o1 t1 c1 cs)))
           = issued cs @ [(k, nextRequestId cs)]"
    and "\<exists>res. r_data res = Some v
          \<and> deliveries cs (query k o2 t2 c2 (complete (nextRequestId cs) f t (query k o1 t1 c1 cs)))
              = map (\<lambda>(r, c). (c, res)) (filter (\<lambda>(r, c). r = nextRequestId cs) (waiting cs))
                @ [(c1, res), (c2, res)]"
proof -
  let ?q = "query k o1 t1 c1 cs"
  let ?rid = "nextRequestId cs"
  let ?c = "complete ?rid f t ?q"
  let ?e = "settled (Ok v) t (fetching ?rid (found cs k o1))"
  let ?e2 = "?e\<lparr>staleAfterMs := opt_staleAfterMs o2, retentionMs := opt_retentionMs o2\<rparr>"
  have r: "runs ?q ?rid k" by (rule runs_query [OF nf])
  have eo: "entryOf ?q k = fetching ?rid (found cs k o1)"
    by (rule entryOf_Some [OF found_query [OF nf]])
  have g: "get ?c k = Some ?e"
    using ok by (simp add: get_complete [OF r] eo)
  have fo: "found ?c k o2 = ?e2"
    by (rule found_Some [OF g])
  have fresh: "\<not> isStale t2 ?e2"
    using t by (simp add: isStale_def settled_def)
  have nn: "\<not> needsFetch ?c k o2 t2"
    using fresh by (simp add: needsFetch_def fo)
  have nfl: "inFlightRequestId ?e2 = None"
    by (simp add: settled_def)
  have vw: "view ?e2 = view ?e"
    by (rule view_patched)
  show "issued (query k o2 t2 c2 ?c) = issued cs @ [(k, ?rid)]"
    using nn nf by (simp add: issued_query issued_complete)
  have w: "waiting ?q = waiting cs @ [(?rid, c1)]"
    using nf by (simp add: waiting_query)
  have dq: "delivered ?q = delivered cs"
    using nf by (simp add: delivered_query)
  have dc: "delivered ?c = delivered cs
              @ map (\<lambda>(r, c). (c, view ?e)) (filter (\<lambda>(r, c). r = ?rid) (waiting cs))
              @ [(c1, view ?e)]"
    using ok by (simp add: delivered_complete [OF r] eo w dq)
  have "delivered (query k o2 t2 c2 ?c) = delivered ?c @ [(c2, view ?e)]"
    using nn nfl by (simp add: delivered_query fo vw)
  then have "deliveries cs (query k o2 t2 c2 ?c)
          = map (\<lambda>(r, c). (c, view ?e)) (filter (\<lambda>(r, c). r = ?rid) (waiting cs))
            @ [(c1, view ?e), (c2, view ?e)]"
    by (simp add: deliveries_def dc)
  moreover have "r_data (view ?e) = Some v"
    by (simp add: view_def settled_def)
  ultimately show "\<exists>res. r_data res = Some v
          \<and> deliveries cs (query k o2 t2 c2 ?c)
              = map (\<lambda>(r, c). (c, res)) (filter (\<lambda>(r, c). r = ?rid) (waiting cs))
                @ [(c1, res), (c2, res)]"
    by blast
qed

text \<open>
  C2 as stated: at most one fetch is in flight for a key, and two query calls for a key
  within \<open>staleAfterMs\<close> of each other cause exactly one network call. The second part
  fails in two ways. The todos were fetched at time 0, and the calls ask for 10 ms of
  freshness. A call at time 100 finds them stale and fetches; the fetch fails for good
  at 101, after four network calls; the call at 102, 2 ms after the first, finds them
  stale still and fetches again: two fetches. And two calls at times 1 and 2, while the
  todos are fresh, cause no fetch at all.
\<close>

theorem two_queries_counterexample:
  "opt_staleAfterMs ex_options = 10
   \<and> fetchCount
        (run [Query CACHE_KEY_TODOS ex_options 100 2,
              Complete 1 (\<lambda>i. NetworkError ''down'') 101,
              Query CACHE_KEY_TODOS ex_options 102 3] ex_fetched) CACHE_KEY_TODOS
       = fetchCount ex_fetched CACHE_KEY_TODOS + 2
   \<and> length (calls
        (run [Query CACHE_KEY_TODOS ex_options 100 2,
              Complete 1 (\<lambda>i. NetworkError ''down'') 101,
              Query CACHE_KEY_TODOS ex_options 102 3] ex_fetched))
       = length (calls ex_fetched) + 4
   \<and> fetchCount
        (run [Query CACHE_KEY_TODOS ex_options 1 2,
              Query CACHE_KEY_TODOS ex_options 2 3] ex_fetched) CACHE_KEY_TODOS
       = fetchCount ex_fetched CACHE_KEY_TODOS
   \<and> calls
        (run [Query CACHE_KEY_TODOS ex_options 1 2,
              Query CACHE_KEY_TODOS ex_options 2 3] ex_fetched)
       = calls ex_fetched"
  by code_simp

text \<open>
  C2, amended. No run of a new cache instance has two fetches in flight for one key.
  When a query call starts a fetch (the entry is absent, or stale by the \<open>staleAfterMs\<close>
  of the call, with nothing in flight), that is one fetch for the key; a second query
  call for the key while the fetch is in flight starts none, and both callers receive
  the same result when the fetch completes, whatever its outcome. A second query call
  that comes after the fetch succeeded, and within its \<open>staleAfterMs\<close> of the first
  call, starts none either: it is served from the cache, and both callers have received
  the same result, with the fetched data. The one fetch makes one network call when its
  first attempt succeeds, and at most \<open>retryCount + 1\<close> otherwise.
\<close>

theorem one_fetch_for_two_queries:
  assumes "needsFetch cs k o1 t1"
    and "t1 \<le> t" and "t \<le> t2" and "t2 - t1 \<le> opt_staleAfterMs o2"
    and "fst (attempts (retryCount cs) f 0) = Ok v"
  shows "length (inFlight (run ops create) k') \<le> 1
       \<and> fetchCount (query k o1 t1 c1 cs) k = Suc (fetchCount cs k)
       \<and> fetchCount (query k o2 t2 c2 (query k o1 t1 c1 cs)) k = Suc (fetchCount cs k)
       \<and> (\<exists>res. (c1, res) \<in> set (deliveries cs (complete (nextRequestId cs) g t3
                     (query k o2 t2 c2 (query k o1 t1 c1 cs))))
             \<and> (c2, res) \<in> set (deliveries cs (complete (nextRequestId cs) g t3
                     (query k o2 t2 c2 (query k o1 t1 c1 cs))))
             \<and> (\<forall>x \<in> set (deliveries cs (complete (nextRequestId cs) g t3
                     (query k o2 t2 c2 (query k o1 t1 c1 cs)))). snd x = res))
       \<and> fetchCount (query k o2 t2 c2 (complete (nextRequestId cs) f t (query k o1 t1 c1 cs))) k
           = Suc (fetchCount cs k)
       \<and> (\<exists>n. calls (query k o2 t2 c2 (complete (nextRequestId cs) f t (query k o1 t1 c1 cs)))
                 = calls cs @ replicate n (k, nextRequestId cs)
             \<and> 1 \<le> n \<and> n \<le> Suc (retryCount cs) \<and> (f 0 = Ok v \<longrightarrow> n = 1))
       \<and> (\<exists>res. r_data res = Some v
             \<and> (c1, res) \<in> set (deliveries cs
                   (query k o2 t2 c2 (complete (nextRequestId cs) f t (query k o1 t1 c1 cs))))
             \<and> (c2, res) \<in> set (deliveries cs
                   (query k o2 t2 c2 (complete (nextRequestId cs) f t (query k o1 t1 c1 cs))))
             \<and> (\<forall>x \<in> set (deliveries cs
                   (query k o2 t2 c2 (complete (nextRequestId cs) f t (query k o1 t1 c1 cs)))).
                  snd x = res))"
proof -
  have 1: "length (inFlight (run ops create) k') \<le> 1"
    by (rule inFlight_le_1 [OF consistent_run [OF consistent_create]])
  have 2: "fetchCount (query k o1 t1 c1 cs) k = Suc (fetchCount cs k)"
    using assms(1) by (simp add: fetchCount_def issued_query)
  have 3: "fetchCount (query k o2 t2 c2 (query k o1 t1 c1 cs)) k = Suc (fetchCount cs k)"
    by (simp add: fetchCount_def second_query_in_flight(1) [OF assms(1)])
  note 4 = both_attached [OF assms(1), of c1 g t3 o2 t2 c2]
  have 5: "fetchCount (query k o2 t2 c2 (complete (nextRequestId cs) f t (query k o1 t1 c1 cs))) k
           = Suc (fetchCount cs k)"
    by (simp add: fetchCount_def second_query_fresh(1) [OF assms])
  from second_query_fresh(2) [OF assms, of c2 c1]
  obtain res where rd: "r_data res = Some v"
    and dl: "deliveries cs (query k o2 t2 c2 (complete (nextRequestId cs) f t (query k o1 t1 c1 cs)))
              = map (\<lambda>(r, c). (c, res)) (filter (\<lambda>(r, c). r = nextRequestId cs) (waiting cs))
                @ [(c1, res), (c2, res)]"
    by blast
  have 6: "\<exists>res. r_data res = Some v
             \<and> (c1, res) \<in> set (deliveries cs
                   (query k o2 t2 c2 (complete (nextRequestId cs) f t (query k o1 t1 c1 cs))))
             \<and> (c2, res) \<in> set (deliveries cs
                   (query k o2 t2 c2 (complete (nextRequestId cs) f t (query k o1 t1 c1 cs))))
             \<and> (\<forall>x \<in> set (deliveries cs
                   (query k o2 t2 c2 (complete (nextRequestId cs) f t (query k o1 t1 c1 cs)))).
                  snd x = res)"
    unfolding dl using rd by (intro exI [of _ res]) auto
  have 7: "\<exists>n. calls (query k o2 t2 c2 (complete (nextRequestId cs) f t (query k o1 t1 c1 cs)))
                 = calls cs @ replicate n (k, nextRequestId cs)
             \<and> 1 \<le> n \<and> n \<le> Suc (retryCount cs) \<and> (f 0 = Ok v \<longrightarrow> n = 1)"
  proof (intro exI [of _ "snd (attempts (retryCount cs) f 0)"] conjI)
    show "calls (query k o2 t2 c2 (complete (nextRequestId cs) f t (query k o1 t1 c1 cs)))
            = calls cs @ replicate (snd (attempts (retryCount cs) f 0)) (k, nextRequestId cs)"
      by (simp add: calls_complete [OF runs_query [OF assms(1)]])
    show "1 \<le> snd (attempts (retryCount cs) f 0)"
      and "snd (attempts (retryCount cs) f 0) \<le> Suc (retryCount cs)"
      using attempts_count [of 0 "retryCount cs" f] by simp_all
    show "f 0 = Ok v \<longrightarrow> snd (attempts (retryCount cs) f 0) = 1"
      by (simp add: attempts_first_ok)
  qed
  show ?thesis
    using 1 2 3 4 5 6 7 by blast
qed

theorem one_fetch_for_two_queries_witness:
  "needsFetch ex_subscribed CACHE_KEY_TODOS useTodos_options 0
   \<and> map_option staleAfterMs (get ex_subscribed CACHE_KEY_TODOS) = Some 0
   \<and> opt_staleAfterMs useTodos_options = 100000
   \<and> fetchCount (query CACHE_KEY_TODOS useTodos_options 100000 2
        (query CACHE_KEY_TODOS useTodos_options 0 1 ex_subscribed)) CACHE_KEY_TODOS = 1
   \<and> fetchCount (query CACHE_KEY_TODOS useTodos_options 100000 2
        (complete 0 (\<lambda>i. Ok 42) 50
          (query CACHE_KEY_TODOS useTodos_options 0 1 ex_subscribed))) CACHE_KEY_TODOS = 1
   \<and> calls (query CACHE_KEY_TODOS useTodos_options 100000 2
        (complete 0 (\<lambda>i. Ok 42) 50
          (query CACHE_KEY_TODOS useTodos_options 0 1 ex_subscribed)))
       = [(CACHE_KEY_TODOS, 0)]
   \<and> length (inFlight (run [Query CACHE_KEY_TODOS useTodos_options 0 1,
                             Complete 0 (\<lambda>i. Ok 42) 0,
                             Query CACHE_KEY_TODOS useTodos_options 400000 2, Sweep 800000,
                             Query CACHE_KEY_TODOS useTodos_options 800001 3]
                          (create :: (nat, nat) core)) CACHE_KEY_TODOS) \<le> 1
   \<and> inFlight (run [Query CACHE_KEY_TODOS useTodos_options 0 1,
                     Complete 0 (\<lambda>i. Ok 42) 0,
                     Query CACHE_KEY_TODOS useTodos_options 400000 2, Sweep 800000,
                     Query CACHE_KEY_TODOS useTodos_options 800001 3]
                  (create :: (nat, nat) core)) CACHE_KEY_TODOS = [1]"
proof -
  have fl: "inFlight (run [Query CACHE_KEY_TODOS useTodos_options 0 1,
                     Complete 0 (\<lambda>i. Ok 42) 0,
                     Query CACHE_KEY_TODOS useTodos_options 400000 2, Sweep 800000,
                     Query CACHE_KEY_TODOS useTodos_options 800001 3]
                  (create :: (nat, nat) core)) CACHE_KEY_TODOS = [1]"
    by code_simp
  have n: "needsFetch ex_subscribed CACHE_KEY_TODOS useTodos_options 0" by code_simp
  have s: "opt_staleAfterMs useTodos_options = 100000" by code_simp
  have s0: "map_option staleAfterMs (get ex_subscribed CACHE_KEY_TODOS) = Some 0" by code_simp
  have a: "fst (attempts (retryCount ex_subscribed) (\<lambda>i. Ok (42::nat)) 0) = Ok 42"
    by code_simp
  have t: "(0::int) \<le> 50" "(50::int) \<le> 100000"
    "(100000::int) - 0 \<le> opt_staleAfterMs useTodos_options"
    by (simp_all add: s)
  have c: "fetchCount ex_subscribed CACHE_KEY_TODOS = 0"
    "nextRequestId ex_subscribed = 0" "calls ex_subscribed = []" "retryCount ex_subscribed = 3"
    by code_simp+
  from one_fetch_for_two_queries [OF n t a,
      of "[Query CACHE_KEY_TODOS useTodos_options 0 1, Complete 0 (\<lambda>i. Ok 42) 0,
           Query CACHE_KEY_TODOS useTodos_options 400000 2, Sweep 800000,
           Query CACHE_KEY_TODOS useTodos_options 800001 3]"
         CACHE_KEY_TODOS 1 2 "\<lambda>i. Ok 42" 60]
  have "length (inFlight (run [Query CACHE_KEY_TODOS useTodos_options 0 1,
                             Complete 0 (\<lambda>i. Ok 42) 0,
                             Query CACHE_KEY_TODOS useTodos_options 400000 2, Sweep 800000,
                             Query CACHE_KEY_TODOS useTodos_options 800001 3]
                          (create :: (nat, nat) core)) CACHE_KEY_TODOS) \<le> 1"
    and "fetchCount (query CACHE_KEY_TODOS useTodos_options 100000 2
        (query CACHE_KEY_TODOS useTodos_options 0 1 ex_subscribed)) CACHE_KEY_TODOS
          = Suc (fetchCount ex_subscribed CACHE_KEY_TODOS)"
    and "fetchCount (query CACHE_KEY_TODOS useTodos_options 100000 2
        (complete (nextRequestId ex_subscribed) (\<lambda>i. Ok 42) 50
          (query CACHE_KEY_TODOS useTodos_options 0 1 ex_subscribed))) CACHE_KEY_TODOS
          = Suc (fetchCount ex_subscribed CACHE_KEY_TODOS)"
    and "\<exists>n. calls (query CACHE_KEY_TODOS useTodos_options 100000 2
        (complete (nextRequestId ex_subscribed) (\<lambda>i. Ok 42) 50
          (query CACHE_KEY_TODOS useTodos_options 0 1 ex_subscribed)))
          = calls ex_subscribed
              @ replicate n (CACHE_KEY_TODOS, nextRequestId ex_subscribed)
        \<and> 1 \<le> n \<and> n \<le> Suc (retryCount ex_subscribed)
        \<and> ((\<lambda>i. Ok 42 :: nat attempt) 0 = Ok 42 \<longrightarrow> n = 1)"
    by blast+
  then show ?thesis
    using n s s0 fl by (auto simp: c)
qed

end
